theory Spec2Isabelle
  imports Main
begin

section \<open>Events, snapshot differences and the event queue\<close>

type_synonym path = string

text \<open>
  The event classes of module \<open>events\<close> that \<open>polling_observer.py\<close> constructs: one path,
  or an old and a new path for a move.
\<close>

datatype event =
    FileDeletedEvent path
  | FileModifiedEvent path
  | FileCreatedEvent path
  | FileMovedEvent path path
  | DirModifiedEvent path
  | DirDeletedEvent path
  | DirCreatedEvent path
  | DirMovedEvent path path

text \<open>
  Modelled from the spec: \<open>DirectorySnapshotDiff\<close> (module \<open>dirsnapshot\<close> is not part of the
  source tree). The spec's DiffResult has eight category collections; the producer reads
  them as the attributes below. The six plain collections are iterated directly, the two
  \<open>moved\<close> collections are dictionaries iterated with \<open>.items()\<close>: each is a list here, in
  the order in which Python iterates it. A diff object defines neither \<open>__len__\<close> nor
  \<open>__nonzero__\<close>, so it counts as true in a condition; only \<open>None\<close> is false.
\<close>

record directory_snapshot_diff =
  files_deleted :: "path list"
  files_modified :: "path list"
  files_created :: "path list"
  files_moved :: "(path \<times> path) list"
  dirs_modified :: "path list"
  dirs_deleted :: "path list"
  dirs_created :: "path list"
  dirs_moved :: "(path \<times> path) list"

text \<open>
  The exceptions that occur. \<open>OSError\<close> stands for a failure of the snapshot provider,
  \<open>HandlerError\<close> for any exception of a handler other than \<open>KeyboardInterrupt\<close>.
\<close>

datatype exn = KeyboardInterrupt | KeyError | RuntimeError | OSError | HandlerError

text \<open>
  \<open>Queue.Queue()\<close> without a size: an unbounded FIFO. \<open>put\<close> appends and never blocks.
  Its contents are pairs \<open>(watched path, event)\<close>.
\<close>

type_synonym queue = "(path \<times> event) list"

definition put :: "queue \<Rightarrow> path \<times> event \<Rightarrow> queue" where
  "put q x = q @ [x]"

text \<open>
  The model holds one queue object, the observer's \<open>event_queue\<close>. A producer's
  \<open>out_event_queue\<close> is a reference to it or \<open>None\<close>; a \<open>Queue\<close> object is true in a
  condition (the class has no \<open>__len__\<close>).
\<close>

datatype queue_ref = Event_queue

section \<open>The producer thread: \<open>_PollingEventProducer\<close>\<close>

text \<open>
  The life cycle of a \<open>threading.Thread\<close>: created, started (its \<open>run\<close> is executing),
  finished (\<open>run\<close> has returned or raised).
\<close>

datatype thread_state = Initial | Alive | Finished

text \<open>
  The fields set by \<open>__init__\<close>. \<open>args\<close>, \<open>kwargs\<close> and the thread's \<open>name\<close> are never read
  again and are left out. \<open>stopped\<close> is the \<open>Event\<close> flag. \<open>'snap\<close> is the type of a
  \<open>DirectorySnapshot\<close>.
\<close>

record 'snap producer =
  interval :: nat
  out_event_queue :: "queue_ref option"
  stopped :: bool
  snapshot :: "'snap option"
  path :: path
  tstate :: thread_state

definition init_producer :: "path \<Rightarrow> nat \<Rightarrow> queue_ref option \<Rightarrow> 'snap producer" where
  "init_producer p i oq =
     \<lparr>interval = i, out_event_queue = oq, stopped = False, snapshot = None, path = p,
      tstate = Initial\<rparr>"

definition producer_stop :: "'snap producer \<Rightarrow> 'snap producer" where
  "producer_stop pr = pr\<lparr>stopped := True\<rparr>"

text \<open>
  \<open>_get_directory_snapshot_diff\<close>. \<open>acq\<close> is what \<open>DirectorySnapshot(self.path)\<close> does at
  this call: it returns a snapshot or raises. \<open>sub new old\<close> is \<open>new - old\<close>, the
  subtraction of module \<open>dirsnapshot\<close>. Both branches of the source build the new snapshot
  before they assign anything, so a failure leaves the producer unchanged.
\<close>

definition get_directory_snapshot_diff ::
  "('snap \<Rightarrow> 'snap \<Rightarrow> directory_snapshot_diff) \<Rightarrow> exn + 'snap \<Rightarrow> 'snap producer
     \<Rightarrow> exn + ('snap producer \<times> directory_snapshot_diff option)" where
  "get_directory_snapshot_diff sub acq pr =
     (case snapshot pr of
        None \<Rightarrow>
          (case acq of
             Inl e \<Rightarrow> Inl e
           | Inr new_snapshot \<Rightarrow> Inr (pr\<lparr>snapshot := Some new_snapshot\<rparr>, None))
      | Some old \<Rightarrow>
          (case acq of
             Inl e \<Rightarrow> Inl e
           | Inr new_snapshot \<Rightarrow>
               Inr (pr\<lparr>snapshot := Some new_snapshot\<rparr>, Some (sub new_snapshot old))))"

text \<open>
  The eight \<open>for\<close> loops of \<open>run\<close>, in the order of the source; each iteration is one
  \<open>q.put((self.path, ...))\<close>.
\<close>

definition emit_events :: "path \<Rightarrow> directory_snapshot_diff \<Rightarrow> queue \<Rightarrow> queue" where
  "emit_events p diff q0 =
     (let q1 = fold (\<lambda>x q. put q (p, FileDeletedEvent x)) (files_deleted diff) q0;
          q2 = fold (\<lambda>x q. put q (p, FileModifiedEvent x)) (files_modified diff) q1;
          q3 = fold (\<lambda>x q. put q (p, FileCreatedEvent x)) (files_created diff) q2;
          q4 = fold (\<lambda>(x, y) q. put q (p, FileMovedEvent x y)) (files_moved diff) q3;
          q5 = fold (\<lambda>x q. put q (p, DirModifiedEvent x)) (dirs_modified diff) q4;
          q6 = fold (\<lambda>x q. put q (p, DirDeletedEvent x)) (dirs_deleted diff) q5;
          q7 = fold (\<lambda>x q. put q (p, DirCreatedEvent x)) (dirs_created diff) q6
      in fold (\<lambda>(x, y) q. put q (p, DirMovedEvent x y)) (dirs_moved diff) q7)"

text \<open>
  One poll: the body of the \<open>while\<close> loop after the wait. \<open>q\<close> is the contents of the
  event queue before the poll; the result holds the contents after it.
\<close>

definition poll ::
  "('snap \<Rightarrow> 'snap \<Rightarrow> directory_snapshot_diff) \<Rightarrow> exn + 'snap \<Rightarrow> 'snap producer \<Rightarrow> queue
     \<Rightarrow> exn + ('snap producer \<times> queue)" where
  "poll sub acq pr q =
     (case get_directory_snapshot_diff sub acq pr of
        Inl e \<Rightarrow> Inl e
      | Inr (pr', diff) \<Rightarrow>
          (case diff of
             None \<Rightarrow> Inr (pr', q)
           | Some d \<Rightarrow>
               (case out_event_queue pr' of
                  None \<Rightarrow> Inr (pr', q)
                | Some Event_queue \<Rightarrow> Inr (pr', emit_events (path pr') d q))))"

text \<open>
  \<open>run\<close> of the producer. Another thread may call \<open>stop\<close> at any moment; the loop reads
  the flag in two places only, the loop test and the wait, and the wait's result is not
  used. So one pass through the loop is described by a \<open>cycle\<close>: whether \<open>stop\<close> arrives
  after the loop test and before the wait has ended, what the snapshot provider does, and
  whether \<open>stop\<close> arrives while the poll is running. The status tells how the run ends:
  the loop test saw the flag and \<open>run\<close> returned, the provider raised, or the given
  cycles are used up and the thread is still in its loop.
\<close>

record 'snap cycle =
  stop_during_wait :: bool
  acquired :: "exn + 'snap"
  stop_during_poll :: bool

datatype status = Returned | Raised exn | Unfinished

fun producer_run ::
  "('snap \<Rightarrow> 'snap \<Rightarrow> directory_snapshot_diff) \<Rightarrow> 'snap cycle list \<Rightarrow> 'snap producer \<Rightarrow> queue
     \<Rightarrow> 'snap producer \<times> queue \<times> status" where
  "producer_run sub [] pr q = (pr, q, if stopped pr then Returned else Unfinished)"
| "producer_run sub (c # cs) pr q =
     (if stopped pr then (pr, q, Returned)
      else
        (let pr1 = (if stop_during_wait c then producer_stop pr else pr) in
           (case poll sub (acquired c) pr1 q of
              Inl e \<Rightarrow> (pr1, q, Raised e)
            | Inr (pr2, q2) \<Rightarrow>
                producer_run sub cs
                  (if stop_during_poll c then producer_stop pr2 else pr2) q2)))"

section \<open>The observer thread: \<open>PollingObserver\<close>\<close>

text \<open>
  Thread objects are shared: the same producer is a member of \<open>event_producer_threads\<close>,
  the value of a rule, and the loop variable \<open>t\<close> of \<open>run\<close>. So producers live in a store
  (\<open>heap\<close>) and are named by references; \<open>next_tid\<close> is the next unused reference, and it
  also counts the insertions into the producer set.

  \<open>event_producer_threads\<close> is a Python \<open>set\<close>. It is a duplicate-free list here whose
  order stands for the order in which Python iterates the set (which Python does not
  fix); \<open>run_from\<close> below takes the iteration order as an argument of its own.

  A handler is \<open>event_handler.dispatch\<close>: called with an event, it returns (\<open>None\<close>) or
  raises. What else a handler does is outside the observer's state.
\<close>

type_synonym tid = nat

type_synonym handler = "event \<Rightarrow> exn option"

record rule =
  event_handler :: handler
  event_producer_thread :: tid

record 'snap observer =
  obs_interval :: nat
  event_queue :: queue
  event_producer_threads :: "tid list"
  rules :: "path \<rightharpoonup> rule"
  heap :: "tid \<rightharpoonup> 'snap producer"
  next_tid :: tid

definition init_observer :: "nat \<Rightarrow> 'snap observer" where
  "init_observer i =
     \<lparr>obs_interval = i, event_queue = [], event_producer_threads = [], rules = Map.empty,
      heap = Map.empty, next_tid = 0\<rparr>"

text \<open>
  A method call \<open>t.f()\<close> on the thread object that \<open>t\<close> refers to. In the states that the
  operations build, every reference in the producer set or in a rule names an object of
  the store; for a reference that names none the call does nothing.
\<close>

definition on_thread ::
  "tid \<Rightarrow> ('snap producer \<Rightarrow> 'snap producer) \<Rightarrow> 'snap observer \<Rightarrow> 'snap observer" where
  "on_thread t f obs =
     (case heap obs t of
        None \<Rightarrow> obs
      | Some pr \<Rightarrow> obs\<lparr>heap := (heap obs)(t \<mapsto> f pr)\<rparr>)"

definition add_rule :: "path \<Rightarrow> handler \<Rightarrow> 'snap observer \<Rightarrow> 'snap observer" where
  "add_rule p h obs =
     (case rules obs p of
        Some r \<Rightarrow> obs
      | None \<Rightarrow>
          (let t = next_tid obs in
             obs\<lparr>event_producer_threads := event_producer_threads obs @ [t],
                 rules := (rules obs)(p \<mapsto> \<lparr>event_handler = h, event_producer_thread = t\<rparr>),
                 heap := (heap obs)(t \<mapsto> init_producer p (obs_interval obs) (Some Event_queue)),
                 next_tid := Suc t\<rparr>))"

text \<open>
  \<open>remove_rule\<close>: \<open>set.remove\<close> raises \<open>KeyError\<close> for an element that is not in the set;
  the rule is popped and the producer stopped by then. The second component is the
  exception that the caller sees, if any.
\<close>

definition remove_rule :: "path \<Rightarrow> 'snap observer \<Rightarrow> 'snap observer \<times> exn option" where
  "remove_rule p obs =
     (case rules obs p of
        None \<Rightarrow> (obs, None)
      | Some r \<Rightarrow>
          (let t = event_producer_thread r;
               obs1 = on_thread t producer_stop (obs\<lparr>rules := (rules obs)(p := None)\<rparr>)
           in if t \<in> set (event_producer_threads obs1)
              then (obs1\<lparr>event_producer_threads := remove1 t (event_producer_threads obs1)\<rparr>,
                    None)
              else (obs1, Some KeyError)))"

definition observer_stop :: "'snap observer \<Rightarrow> 'snap observer" where
  "observer_stop obs = fold (\<lambda>t. on_thread t producer_stop) (event_producer_threads obs) obs"

text \<open>
  While \<open>run\<close> executes, other threads act. An execution is a list of actions, taken in
  order:
  \<^item> \<open>Get\<close>: the observer's \<open>event_queue.get()\<close> returns the head of the queue and the body
    of the \<open>while\<close> loop runs once; while the queue is empty the call stays blocked and
    the action has no effect;
  \<^item> \<open>Interrupt\<close>: \<open>KeyboardInterrupt\<close> is raised in the thread that executes \<open>run\<close>, inside
    the \<open>try\<close>;
  \<^item> \<open>Call_add_rule\<close>, \<open>Call_remove_rule\<close>, \<open>Call_stop\<close>: another thread calls the method
    (an exception of \<open>remove_rule\<close> goes to that caller);
  \<^item> \<open>Producer_cycle t acq\<close>: the producer thread \<open>t\<close>, if it is alive, makes one pass
    through the loop of its \<open>run\<close>, the snapshot provider doing \<open>acq\<close>.
\<close>

datatype 'snap action =
    Get
  | Interrupt
  | Call_add_rule path handler
  | Call_remove_rule path
  | Call_stop
  | Producer_cycle tid "exn + 'snap"

definition producer_cycle ::
  "('snap \<Rightarrow> 'snap \<Rightarrow> directory_snapshot_diff) \<Rightarrow> tid \<Rightarrow> exn + 'snap \<Rightarrow> 'snap observer
     \<Rightarrow> 'snap observer" where
  "producer_cycle sub t acq obs =
     (case heap obs t of
        None \<Rightarrow> obs
      | Some pr \<Rightarrow>
          if tstate pr \<noteq> Alive then obs
          else
            (case producer_run sub
                    [\<lparr>stop_during_wait = False, acquired = acq, stop_during_poll = False\<rparr>]
                    pr (event_queue obs) of
               (pr', q', st) \<Rightarrow>
                 obs\<lparr>heap := (heap obs)
                          (t \<mapsto> pr'\<lparr>tstate := (if st = Unfinished then Alive else Finished)\<rparr>),
                     event_queue := q'\<rparr>))"

fun env_step ::
  "('snap \<Rightarrow> 'snap \<Rightarrow> directory_snapshot_diff) \<Rightarrow> 'snap action \<Rightarrow> 'snap observer
     \<Rightarrow> 'snap observer" where
  "env_step sub (Call_add_rule p h) obs = add_rule p h obs"
| "env_step sub (Call_remove_rule p) obs = fst (remove_rule p obs)"
| "env_step sub Call_stop obs = observer_stop obs"
| "env_step sub (Producer_cycle t acq) obs = producer_cycle sub t acq obs"
| "env_step sub Get obs = obs"
| "env_step sub Interrupt obs = obs"

text \<open>
  The \<open>try\<close> block of \<open>run\<close>: \<open>while True\<close> around \<open>get\<close>, the lookup
  \<open>self.rules[rule_path]['event_handler']\<close> and \<open>dispatch\<close>. The block is left by
  \<open>KeyboardInterrupt\<close> (from outside or from the handler), which the \<open>except\<close> clause
  catches, or by any other exception, which nothing catches. When the actions are used up
  the loop is where it always returns to: blocked in \<open>get\<close>.
\<close>

datatype 'snap loop_exit =
    Interrupted "'snap observer" "'snap action list"
  | Failed exn "'snap observer"
  | Blocked "'snap observer"

fun dispatch_loop ::
  "('snap \<Rightarrow> 'snap \<Rightarrow> directory_snapshot_diff) \<Rightarrow> 'snap observer \<Rightarrow> 'snap action list
     \<Rightarrow> 'snap loop_exit" where
  "dispatch_loop sub obs [] = Blocked obs"
| "dispatch_loop sub obs (Interrupt # acts) = Interrupted obs acts"
| "dispatch_loop sub obs (Get # acts) =
     (case event_queue obs of
        [] \<Rightarrow> dispatch_loop sub obs acts
      | (rule_path, ev) # q \<Rightarrow>
          (let obs' = obs\<lparr>event_queue := q\<rparr> in
             (case rules obs' rule_path of
                None \<Rightarrow> Failed KeyError obs'
              | Some r \<Rightarrow>
                  (case event_handler r ev of
                     None \<Rightarrow> dispatch_loop sub obs' acts
                   | Some e \<Rightarrow>
                       if e = KeyboardInterrupt then Interrupted obs' acts
                       else Failed e obs'))))"
| "dispatch_loop sub obs (a # acts) = dispatch_loop sub (env_step sub a obs) acts"

text \<open>
  The \<open>for\<close> loop of \<open>run\<close>, from the moment the set iterator exists. \<open>n0\<close> and \<open>v0\<close> are
  the size of the set and the insertion count when the iterator was made, \<open>ts\<close> the
  members it has not yielded yet. Each pass asks the iterator for the next member
  (\<open>RuntimeError\<close> when the set has changed its size; when it has been changed and has the
  old size again, what CPython's iterator yields depends on the layout of the hash table,
  and this function stops: \<open>Unmodelled\<close>; \<open>run_iter\<close> below goes on there), starts that thread (\<open>RuntimeError\<close> unless the thread
  is still unstarted) and enters the \<open>try\<close> block; the \<open>except\<close> clause stops the thread
  and the \<open>for\<close> loop goes on.
\<close>

datatype 'snap outcome =
    Run_returned "'snap observer"
  | Run_raised exn "'snap observer"
  | Run_blocked "'snap observer"
  | Unmodelled "'snap observer"

fun run_from ::
  "('snap \<Rightarrow> 'snap \<Rightarrow> directory_snapshot_diff) \<Rightarrow> nat \<Rightarrow> nat \<Rightarrow> tid list \<Rightarrow> 'snap observer
     \<Rightarrow> 'snap action list \<Rightarrow> 'snap outcome" where
  "run_from sub n0 v0 [] obs acts =
     (if length (event_producer_threads obs) \<noteq> n0 then Run_raised RuntimeError obs
      else if next_tid obs \<noteq> v0 then Unmodelled obs
      else Run_returned obs)"
| "run_from sub n0 v0 (t # ts) obs acts =
     (if length (event_producer_threads obs) \<noteq> n0 then Run_raised RuntimeError obs
      else if next_tid obs \<noteq> v0 then Unmodelled obs
      else
        (case heap obs t of
           None \<Rightarrow> Unmodelled obs
         | Some pr \<Rightarrow>
             if tstate pr \<noteq> Initial then Run_raised RuntimeError obs
             else
               (case dispatch_loop sub (obs\<lparr>heap := (heap obs)(t \<mapsto> pr\<lparr>tstate := Alive\<rparr>)\<rparr>) acts of
                  Interrupted obs' acts' \<Rightarrow>
                    run_from sub n0 v0 ts (on_thread t producer_stop obs') acts'
                | Failed e obs' \<Rightarrow> Run_raised e obs'
                | Blocked obs' \<Rightarrow> Run_blocked obs')))"

definition observer_run ::
  "('snap \<Rightarrow> 'snap \<Rightarrow> directory_snapshot_diff) \<Rightarrow> 'snap observer \<Rightarrow> 'snap action list
     \<Rightarrow> 'snap outcome" where
  "observer_run sub obs acts =
     run_from sub (length (event_producer_threads obs)) (next_tid obs)
       (event_producer_threads obs) obs acts"

fun outcome_state :: "'snap outcome \<Rightarrow> 'snap observer" where
  "outcome_state (Run_returned obs) = obs"
| "outcome_state (Run_raised e obs) = obs"
| "outcome_state (Run_blocked obs) = obs"
| "outcome_state (Unmodelled obs) = obs"

fun loop_exit_state :: "'snap loop_exit \<Rightarrow> 'snap observer" where
  "loop_exit_state (Interrupted obs acts) = obs"
| "loop_exit_state (Failed e obs) = obs"
| "loop_exit_state (Blocked obs) = obs"

text \<open>
  \<open>run_from\<close> stops where the state of the model does not determine what the set iterator
  yields. \<open>run_iter\<close> is the same \<open>for\<close> loop and goes on there. While the set is
  untouched (no insertion since the iterator was made, and the old size) the iterator
  yields the remaining members \<open>ts\<close> in their order. Once something has been inserted and
  the set has its old size, CPython's iterator neither raises nor keeps to the old order:
  it walks on over the slots of the hash table as it is now, and yields a member of the
  set as it is now (possibly one it has yielded before), or finds nothing more. What it
  does at each such request is given by the list \<open>cs\<close>: \<open>Some t\<close> yields \<open>t\<close>, which has to
  be a member of the set then; \<open>None\<close>, a \<open>t\<close> that is no member, or a used-up list end the
  loop. A property of \<open>run_iter\<close> for every \<open>cs\<close> holds for every layout of the table.

  \<open>for_pass\<close> is the body of the \<open>for\<close> loop for the member \<open>t\<close>: \<open>t.start()\<close> and the
  \<open>try\<close> statement. Either the \<open>except\<close> clause has stopped \<open>t\<close> and the loop goes on with
  the actions that are left, or \<open>run\<close> has ended.
\<close>

datatype 'snap pass =
    Pass_interrupted "'snap observer" "'snap action list"
  | Pass_ended "'snap outcome"

definition for_pass ::
  "('snap \<Rightarrow> 'snap \<Rightarrow> directory_snapshot_diff) \<Rightarrow> tid \<Rightarrow> 'snap observer \<Rightarrow> 'snap action list
     \<Rightarrow> 'snap pass" where
  "for_pass sub t obs acts =
     (case heap obs t of
        None \<Rightarrow> Pass_ended (Unmodelled obs)
      | Some pr \<Rightarrow>
          if tstate pr \<noteq> Initial then Pass_ended (Run_raised RuntimeError obs)
          else
            (case dispatch_loop sub (obs\<lparr>heap := (heap obs)(t \<mapsto> pr\<lparr>tstate := Alive\<rparr>)\<rparr>) acts of
               Interrupted obs' acts' \<Rightarrow> Pass_interrupted (on_thread t producer_stop obs') acts'
             | Failed e obs' \<Rightarrow> Pass_ended (Run_raised e obs')
             | Blocked obs' \<Rightarrow> Pass_ended (Run_blocked obs')))"

fun run_iter ::
  "('snap \<Rightarrow> 'snap \<Rightarrow> directory_snapshot_diff) \<Rightarrow> nat \<Rightarrow> nat \<Rightarrow> tid list \<Rightarrow> tid option list
     \<Rightarrow> 'snap observer \<Rightarrow> 'snap action list \<Rightarrow> 'snap outcome" where
  "run_iter sub n0 v0 ts cs obs acts =
     (if length (event_producer_threads obs) \<noteq> n0 then Run_raised RuntimeError obs
      else if next_tid obs = v0 then
        (case ts of
           [] \<Rightarrow> Run_returned obs
         | t # ts' \<Rightarrow>
             (case for_pass sub t obs acts of
                Pass_interrupted obs' acts' \<Rightarrow> run_iter sub n0 v0 ts' cs obs' acts'
              | Pass_ended out \<Rightarrow> out))
      else
        (case cs of
           [] \<Rightarrow> Run_returned obs
         | None # cs' \<Rightarrow> Run_returned obs
         | Some t # cs' \<Rightarrow>
             if t \<in> set (event_producer_threads obs)
             then
               (case for_pass sub t obs acts of
                  Pass_interrupted obs' acts' \<Rightarrow> run_iter sub n0 v0 ts cs' obs' acts'
                | Pass_ended out \<Rightarrow> out)
             else Run_returned obs))"

definition observer_run_iter ::
  "('snap \<Rightarrow> 'snap \<Rightarrow> directory_snapshot_diff) \<Rightarrow> tid option list \<Rightarrow> 'snap observer
     \<Rightarrow> 'snap action list \<Rightarrow> 'snap outcome" where
  "observer_run_iter sub cs obs acts =
     run_iter sub (length (event_producer_threads obs)) (next_tid obs)
       (event_producer_threads obs) cs obs acts"

section \<open>Notions used by the properties\<close>

text \<open>
  The order of emission in the spec's words: deleted, modified, created, moved, files
  before directories.
\<close>

definition spec_emission_order :: "path \<Rightarrow> directory_snapshot_diff \<Rightarrow> queue" where
  "spec_emission_order p d =
     map (\<lambda>x. (p, FileDeletedEvent x)) (files_deleted d)
     @ map (\<lambda>x. (p, FileModifiedEvent x)) (files_modified d)
     @ map (\<lambda>x. (p, FileCreatedEvent x)) (files_created d)
     @ map (\<lambda>(x, y). (p, FileMovedEvent x y)) (files_moved d)
     @ map (\<lambda>x. (p, DirDeletedEvent x)) (dirs_deleted d)
     @ map (\<lambda>x. (p, DirModifiedEvent x)) (dirs_modified d)
     @ map (\<lambda>x. (p, DirCreatedEvent x)) (dirs_created d)
     @ map (\<lambda>(x, y). (p, DirMovedEvent x y)) (dirs_moved d)"

text \<open>
  The order of emission of the source: as above, but a directory's modification comes
  before a directory's deletion.
\<close>

definition emission_order :: "path \<Rightarrow> directory_snapshot_diff \<Rightarrow> queue" where
  "emission_order p d =
     map (\<lambda>x. (p, FileDeletedEvent x)) (files_deleted d)
     @ map (\<lambda>x. (p, FileModifiedEvent x)) (files_modified d)
     @ map (\<lambda>x. (p, FileCreatedEvent x)) (files_created d)
     @ map (\<lambda>(x, y). (p, FileMovedEvent x y)) (files_moved d)
     @ map (\<lambda>x. (p, DirModifiedEvent x)) (dirs_modified d)
     @ map (\<lambda>x. (p, DirDeletedEvent x)) (dirs_deleted d)
     @ map (\<lambda>x. (p, DirCreatedEvent x)) (dirs_created d)
     @ map (\<lambda>(x, y). (p, DirMovedEvent x y)) (dirs_moved d)"

text \<open>
  No \<open>KeyboardInterrupt\<close> reaches the \<open>try\<close> block: no handler raises it, and the
  execution holds no \<open>Interrupt\<close>.
\<close>

definition quiet_handler :: "handler \<Rightarrow> bool" where
  "quiet_handler h \<longleftrightarrow> (\<forall>e. h e \<noteq> Some KeyboardInterrupt)"

definition quiet_observer :: "'snap observer \<Rightarrow> bool" where
  "quiet_observer obs \<longleftrightarrow> (\<forall>p r. rules obs p = Some r \<longrightarrow> quiet_handler (event_handler r))"

fun quiet_action :: "'snap action \<Rightarrow> bool" where
  "quiet_action Interrupt = False"
| "quiet_action (Call_add_rule p h) = quiet_handler h"
| "quiet_action a = True"

text \<open>
  The producers registered for a path string, and the link between the producer set and
  the rule table: the set has no duplicates, and each member was allocated, exists, and is
  the producer of the rule for its own path.
\<close>

definition producers_of :: "'snap observer \<Rightarrow> path \<Rightarrow> tid list" where
  "producers_of obs p =
     filter (\<lambda>t. case heap obs t of None \<Rightarrow> False | Some pr \<Rightarrow> path pr = p)
       (event_producer_threads obs)"

definition rule_owned :: "'snap observer \<Rightarrow> tid \<Rightarrow> bool" where
  "rule_owned obs t \<longleftrightarrow>
     t < next_tid obs \<and>
     (case heap obs t of
        None \<Rightarrow> False
      | Some pr \<Rightarrow>
          (case rules obs (path pr) of
             None \<Rightarrow> False
           | Some r \<Rightarrow> event_producer_thread r = t))"

definition registered :: "'snap observer \<Rightarrow> bool" where
  "registered obs \<longleftrightarrow>
     distinct (event_producer_threads obs) \<and>
     list_all (rule_owned obs) (event_producer_threads obs)"

text \<open>Whether a thread has ever been started.\<close>

definition unstarted :: "'snap observer \<Rightarrow> tid \<Rightarrow> bool" where
  "unstarted obs t \<longleftrightarrow> (case heap obs t of None \<Rightarrow> False | Some pr \<Rightarrow> tstate pr = Initial)"

text \<open>
  A live producer: its thread is alive and its stop flag is not set. The live producers
  for a path string are taken among all producers ever allocated, registered or not.
\<close>

definition live :: "'snap observer \<Rightarrow> tid \<Rightarrow> bool" where
  "live obs t \<longleftrightarrow>
     (case heap obs t of None \<Rightarrow> False | Some pr \<Rightarrow> tstate pr = Alive \<and> \<not> stopped pr)"

definition live_producers_of :: "'snap observer \<Rightarrow> path \<Rightarrow> tid list" where
  "live_producers_of obs p =
     filter (\<lambda>t. live obs t \<and> map_option path (heap obs t) = Some p) [0..<next_tid obs]"

definition live_in_set :: "'snap observer \<Rightarrow> bool" where
  "live_in_set obs \<longleftrightarrow>
     list_all (\<lambda>t. live obs t \<longrightarrow> t \<in> set (event_producer_threads obs)) [0..<next_tid obs]"

text \<open>
  What the set iterator of \<open>run\<close> relies on. \<open>ts0\<close> is the producer set and \<open>v0\<close> the
  insertion count when the iterator was made: while nothing has been inserted since, the
  set has only lost members, and if it has its old size it is the old set.
\<close>

definition iterator_sound :: "tid list \<Rightarrow> nat \<Rightarrow> 'snap observer \<Rightarrow> bool" where
  "iterator_sound ts0 v0 obs \<longleftrightarrow>
     v0 \<le> next_tid obs \<and>
     (next_tid obs = v0 \<longrightarrow>
        length (event_producer_threads obs) \<le> length ts0 \<and>
        (length (event_producer_threads obs) = length ts0 \<longrightarrow>
           event_producer_threads obs = ts0))"

text \<open>
  The state of the watches is consistent when the producer set and the rule table are
  linked as above and every live producer is a member of the producer set.
\<close>

definition watches_consistent :: "'snap observer \<Rightarrow> bool" where
  "watches_consistent obs \<longleftrightarrow> registered obs \<and> live_in_set obs"

section \<open>Path normalisation\<close>

text \<open>
  The source computes a canonical path in one place, \<open>realpath(abspath(self.path))\<close> for
  the thread's name. \<open>normpath\<close> is \<open>posixpath.normpath\<close> of the Python standard library,
  which \<open>abspath\<close> applies to an absolute path; it keeps two leading slashes.
\<close>

fun split_slash :: "string \<Rightarrow> string list" where
  "split_slash [] = [[]]"
| "split_slash (c # cs) =
     (if c = CHR ''/'' then [] # split_slash cs
      else (case split_slash cs of [] \<Rightarrow> [[c]] | w # ws \<Rightarrow> (c # w) # ws))"

definition join_slash :: "string list \<Rightarrow> string" where
  "join_slash comps =
     (case comps of [] \<Rightarrow> [] | w # ws \<Rightarrow> w @ concat (map (\<lambda>v. CHR ''/'' # v) ws))"

definition normpath_step :: "nat \<Rightarrow> string \<Rightarrow> string list \<Rightarrow> string list" where
  "normpath_step initial_slashes part new_comps =
     (if part = [] \<or> part = ''.'' then new_comps
      else if part \<noteq> ''..'' \<or> (initial_slashes = 0 \<and> new_comps = [])
              \<or> (new_comps \<noteq> [] \<and> last new_comps = ''..'')
        then new_comps @ [part]
      else if new_comps \<noteq> [] then butlast new_comps
      else new_comps)"

definition normpath :: "string \<Rightarrow> string" where
  "normpath p =
     (if p = [] then ''.''
      else
        (let initial_slashes =
               (if take 1 p = ''/''
                then (if take 2 p = ''//'' \<and> take 3 p \<noteq> ''///'' then 2 else 1)
                else 0);
             comps = fold (normpath_step initial_slashes) (split_slash p) [];
             p' = replicate initial_slashes CHR ''/'' @ join_slash comps
         in if p' = [] then ''.'' else p'))"

text \<open>
  \<open>realpath(abspath(p))\<close> for an absolute \<open>p\<close> on a file system without symbolic links:
  \<open>abspath\<close> normalises, and \<open>realpath\<close> joins the components again from the root, which
  leaves a normalised path as it is except that two leading slashes become one.
\<close>

definition canonical_path :: "string \<Rightarrow> string" where
  "canonical_path p = (let q = normpath p in if take 2 q = ''//'' then drop 1 q else q)"

section \<open>An instance for the examples\<close>

text \<open>
  The snapshot type and its subtraction are parameters of the model. The examples use
  this instance: a snapshot lists the files and the directories of the tree with their
  modification times, and the subtraction reports what was removed, changed and added
  (no moves).
\<close>

record listing =
  files :: "(path \<times> nat) list"
  dirs :: "(path \<times> nat) list"

definition removed :: "(path \<times> nat) list \<Rightarrow> (path \<times> nat) list \<Rightarrow> path list" where
  "removed new old = filter (\<lambda>x. map_of new x = None) (map fst old)"

definition changed :: "(path \<times> nat) list \<Rightarrow> (path \<times> nat) list \<Rightarrow> path list" where
  "changed new old =
     filter (\<lambda>x. map_of old x \<noteq> None \<and> map_of old x \<noteq> map_of new x) (map fst new)"

definition listing_sub :: "listing \<Rightarrow> listing \<Rightarrow> directory_snapshot_diff" where
  "listing_sub new old =
     \<lparr>files_deleted = removed (files new) (files old),
      files_modified = changed (files new) (files old),
      files_created = removed (files old) (files new),
      files_moved = [],
      dirs_modified = changed (dirs new) (dirs old),
      dirs_deleted = removed (dirs new) (dirs old),
      dirs_created = removed (dirs old) (dirs new),
      dirs_moved = []\<rparr>"

text \<open>
  Two snapshots of a tree \<open>/w\<close>: between them the directory \<open>/w/a\<close> is removed, the
  directory \<open>/w/b\<close> is touched and the file \<open>/w/g\<close> is created.
\<close>

definition tree0 :: listing where
  "tree0 = \<lparr>files = [(''/w/f'', 1)], dirs = [(''/w/a'', 1), (''/w/b'', 1)]\<rparr>"

definition tree1 :: listing where
  "tree1 = \<lparr>files = [(''/w/f'', 1), (''/w/g'', 2)], dirs = [(''/w/b'', 2)]\<rparr>"

text \<open>A handler that returns, and one that fails on every event.\<close>

definition handler_ok :: handler where
  "handler_ok = (\<lambda>e. None)"

definition handler_failing :: handler where
  "handler_failing = (\<lambda>e. Some HandlerError)"

text \<open>An observer watching \<open>/w\<close> and \<open>/v\<close>, before \<open>run\<close>.\<close>

definition two_rules :: "listing observer" where
  "two_rules = add_rule ''/v'' handler_ok (add_rule ''/w'' handler_ok (init_observer 1))"

definition one_rule :: "handler \<Rightarrow> listing observer" where
  "one_rule h = add_rule ''/w'' h (init_observer 1)"

section \<open>Lemmas about the producer\<close>

lemma fold_put: "fold (\<lambda>x q. put q (f x)) xs q = q @ map f xs"
  by (induction xs arbitrary: q) (simp_all add: put_def)

lemma fold_put_pair:
  "fold (\<lambda>(x, y) q. put q (f x y)) xs q = q @ map (\<lambda>(x, y). f x y) xs"
  by (induction xs arbitrary: q) (auto simp: put_def)

lemma emit_events_eq: "emit_events p d q = q @ emission_order p d"
  by (simp add: emit_events_def emission_order_def fold_put fold_put_pair Let_def)

lemma poll_baseline:
  "snapshot pr = None \<Longrightarrow> poll sub (Inr s) pr q = Inr (pr\<lparr>snapshot := Some s\<rparr>, q)"
  by (simp add: poll_def get_directory_snapshot_diff_def)

lemma poll_diff:
  "snapshot pr = Some old \<Longrightarrow> out_event_queue pr = Some Event_queue \<Longrightarrow>
   poll sub (Inr new) pr q =
     Inr (pr\<lparr>snapshot := Some new\<rparr>, q @ emission_order (path pr) (sub new old))"
  by (simp add: poll_def get_directory_snapshot_diff_def emit_events_eq)

lemma poll_no_queue:
  "out_event_queue pr = None \<Longrightarrow> poll sub (Inr s) pr q = Inr (pr\<lparr>snapshot := Some s\<rparr>, q)"
  by (simp add: poll_def get_directory_snapshot_diff_def split: option.splits)

lemma poll_Inl: "poll sub (Inl e) pr q = Inl e"
  by (simp add: poll_def get_directory_snapshot_diff_def split: option.splits)

lemma poll_Inl_iff: "poll sub acq pr q = Inl e \<longleftrightarrow> acq = Inl e"
  by (cases acq) (auto simp add: poll_def get_directory_snapshot_diff_def split: option.splits queue_ref.splits)

lemma poll_stop_commute:
  "poll sub acq (producer_stop pr) q =
     (case poll sub acq pr q of Inl e \<Rightarrow> Inl e | Inr (pr', q') \<Rightarrow> Inr (producer_stop pr', q'))"
  by (cases acq) (auto simp add: poll_def get_directory_snapshot_diff_def producer_stop_def split: option.splits queue_ref.splits)

lemma producer_run_stopped: "stopped pr \<Longrightarrow> producer_run sub cs pr q = (pr, q, Returned)"
  by (cases cs) simp_all

lemma producer_run_no_queue:
  "out_event_queue pr = None \<Longrightarrow>
     (case producer_run sub cs pr q of
        (pr', q', st) \<Rightarrow>
          q' = q \<and> out_event_queue pr' = None \<and>
          (\<forall>e. st = Raised e \<longrightarrow> Inl e \<in> acquired ` set cs))"
proof (induction cs arbitrary: pr)
  case Nil
  then show ?case by simp
next
  case (Cons c cs)
  show ?case
  proof (cases "stopped pr")
    case True
    with Cons.prems show ?thesis by simp
  next
    case False
    let ?pr1 = "if stop_during_wait c then producer_stop pr else pr"
    have q1: "out_event_queue ?pr1 = None"
      using Cons.prems by (simp add: producer_stop_def)
    show ?thesis
    proof (cases "acquired c")
      case (Inl e)
      with False show ?thesis
        using Cons.prems by (force simp: poll_Inl Let_def producer_stop_def)
    next
      case (Inr s)
      let ?pr2 = "?pr1\<lparr>snapshot := Some s\<rparr>"
      let ?pr3 = "if stop_during_poll c then producer_stop ?pr2 else ?pr2"
      have p: "poll sub (acquired c) ?pr1 q = Inr (?pr2, q)"
        using q1 Inr by (simp add: poll_no_queue)
      have "out_event_queue ?pr3 = None"
        using q1 by (simp add: producer_stop_def)
      from Cons.IH [OF this]
      have "case producer_run sub cs ?pr3 q of
              (pr', q', st) \<Rightarrow> q' = q \<and> out_event_queue pr' = None \<and>
                (\<forall>e. st = Raised e \<longrightarrow> Inl e \<in> acquired ` set cs)" .
      moreover have "producer_run sub (c # cs) pr q = producer_run sub cs ?pr3 q"
        using False p by (simp add: Let_def)
      ultimately show ?thesis by (auto split: prod.splits)
    qed
  qed
qed


section \<open>Lemmas about the observer\<close>

subsection \<open>What the operations leave unchanged\<close>

lemma on_thread_fields [simp]:
  "rules (on_thread t f obs) = rules obs"
  "event_queue (on_thread t f obs) = event_queue obs"
  "event_producer_threads (on_thread t f obs) = event_producer_threads obs"
  "next_tid (on_thread t f obs) = next_tid obs"
  "obs_interval (on_thread t f obs) = obs_interval obs"
  by (simp_all add: on_thread_def split: option.splits)

lemma heap_on_thread:
  "heap (on_thread t f obs) u = (if u = t then map_option f (heap obs t) else heap obs u)"
  by (simp add: on_thread_def split: option.splits)

lemma fold_on_thread_fields [simp]:
  "rules (fold (\<lambda>t. on_thread t f) ts obs) = rules obs"
  "event_queue (fold (\<lambda>t. on_thread t f) ts obs) = event_queue obs"
  "event_producer_threads (fold (\<lambda>t. on_thread t f) ts obs) = event_producer_threads obs"
  "next_tid (fold (\<lambda>t. on_thread t f) ts obs) = next_tid obs"
  by (induction ts arbitrary: obs) simp_all

lemma heap_fold_stop:
  "heap (fold (\<lambda>t. on_thread t producer_stop) ts obs) u =
     (if u \<in> set ts then map_option producer_stop (heap obs u) else heap obs u)"
proof (induction ts arbitrary: obs)
  case Nil
  show ?case by simp
next
  case (Cons t ts)
  have idem: "map_option producer_stop (map_option producer_stop x) = map_option producer_stop x"
    for x :: "'a producer option"
    by (cases x) (simp_all add: producer_stop_def)
  show ?case
    by (simp add: Cons.IH heap_on_thread idem)
qed

lemma observer_stop_fields [simp]:
  "rules (observer_stop obs) = rules obs"
  "event_queue (observer_stop obs) = event_queue obs"
  "event_producer_threads (observer_stop obs) = event_producer_threads obs"
  "next_tid (observer_stop obs) = next_tid obs"
  by (simp_all add: observer_stop_def)

lemma heap_observer_stop:
  "heap (observer_stop obs) u =
     (if u \<in> set (event_producer_threads obs) then map_option producer_stop (heap obs u)
      else heap obs u)"
  by (simp add: observer_stop_def heap_fold_stop)

lemma poll_fields:
  "poll sub acq pr q = Inr (pr', q') \<Longrightarrow>
     out_event_queue pr' = out_event_queue pr \<and> stopped pr' = stopped pr \<and> path pr' = path pr
     \<and> tstate pr' = tstate pr \<and> interval pr' = interval pr"
  by (cases acq)
     (auto simp add: poll_def get_directory_snapshot_diff_def
           split: option.splits queue_ref.splits)

lemma producer_run_path:
  "producer_run sub cs pr q = (pr', q', st) \<Longrightarrow> path pr' = path pr"
proof (induction cs arbitrary: pr q)
  case Nil
  then show ?case by simp
next
  case (Cons c cs)
  show ?case
  proof (cases "stopped pr")
    case True
    with Cons.prems show ?thesis by simp
  next
    case False
    let ?pr1 = "if stop_during_wait c then producer_stop pr else pr"
    have p1: "path ?pr1 = path pr" by (simp add: producer_stop_def)
    show ?thesis
    proof (cases "poll sub (acquired c) ?pr1 q")
      case (Inl e)
      with False Cons.prems p1 show ?thesis by (auto simp: Let_def)
    next
      case (Inr x)
      obtain pr2 q2 where x: "x = (pr2, q2)" by (cases x)
      let ?pr3 = "if stop_during_poll c then producer_stop pr2 else pr2"
      from Inr x have "path pr2 = path ?pr1" by (simp add: poll_fields)
      then have p3: "path ?pr3 = path pr" using p1 by (simp add: producer_stop_def)
      from False Inr x Cons.prems
      have "producer_run sub cs ?pr3 q2 = (pr', q', st)" by (simp add: Let_def)
      from Cons.IH [OF this] p3 show ?thesis by simp
    qed
  qed
qed

lemma producer_cycle_fields [simp]:
  "rules (producer_cycle sub t acq obs) = rules obs"
  "event_producer_threads (producer_cycle sub t acq obs) = event_producer_threads obs"
  "next_tid (producer_cycle sub t acq obs) = next_tid obs"
  by (simp_all add: producer_cycle_def split: option.splits prod.splits)

lemma heap_producer_cycle:
  "heap (producer_cycle sub t acq obs) u =
     (if u = t
      then (case heap obs t of
              None \<Rightarrow> None
            | Some pr \<Rightarrow>
                if tstate pr \<noteq> Alive then Some pr
                else (case producer_run sub
                             [\<lparr>stop_during_wait = False, acquired = acq, stop_during_poll = False\<rparr>]
                             pr (event_queue obs) of
                        (pr', q', st) \<Rightarrow>
                          Some (pr'\<lparr>tstate := (if st = Unfinished then Alive else Finished)\<rparr>)))
      else heap obs u)"
  by (simp add: producer_cycle_def split: option.splits prod.splits)

lemma rules_add_rule:
  "rules (add_rule p h obs) =
     (case rules obs p of
        Some r \<Rightarrow> rules obs
      | None \<Rightarrow> (rules obs)(p \<mapsto> \<lparr>event_handler = h, event_producer_thread = next_tid obs\<rparr>))"
  by (simp add: add_rule_def Let_def split: option.splits)

lemma rules_remove_rule: "rules (fst (remove_rule p obs)) = (rules obs)(p := None)"
  by (auto simp add: remove_rule_def Let_def split: option.splits)

lemma next_tid_add_rule: "next_tid obs \<le> next_tid (add_rule p h obs)"
  by (simp add: add_rule_def Let_def split: option.splits)

lemma next_tid_remove_rule [simp]: "next_tid (fst (remove_rule p obs)) = next_tid obs"
  by (simp add: remove_rule_def Let_def split: option.splits)

lemma next_tid_env_step: "next_tid obs \<le> next_tid (env_step sub a obs)"
  by (cases a) (simp_all add: next_tid_add_rule)

subsection \<open>Threads that are not started\<close>

lemma unstarted_on_thread_stop:
  "unstarted (on_thread t producer_stop obs) u = unstarted obs u"
  by (simp add: unstarted_def heap_on_thread producer_stop_def split: option.splits)

lemma unstarted_env_step: "unstarted obs u \<Longrightarrow> unstarted (env_step sub a obs) u"
proof (cases a)
  case (Call_add_rule p h)
  assume "unstarted obs u"
  then show ?thesis using Call_add_rule
    by (auto simp add: unstarted_def add_rule_def init_producer_def Let_def split: option.splits)
next
  case (Call_remove_rule p)
  assume "unstarted obs u"
  then show ?thesis using Call_remove_rule
    by (auto simp add: unstarted_def remove_rule_def heap_on_thread producer_stop_def Let_def
             split: option.splits)
next
  case Call_stop
  assume "unstarted obs u"
  then show ?thesis using Call_stop
    by (auto simp add: unstarted_def heap_observer_stop producer_stop_def split: option.splits)
next
  case (Producer_cycle t acq)
  assume "unstarted obs u"
  then show ?thesis using Producer_cycle
    by (auto simp add: unstarted_def heap_producer_cycle split: option.splits)
qed simp_all

lemma dispatch_loop_invariant:
  assumes env: "\<And>a obs. P obs \<Longrightarrow> P (env_step sub a obs)"
    and que: "\<And>obs q. P obs \<Longrightarrow> P (obs\<lparr>event_queue := q\<rparr>)"
    and init: "P obs"
  shows "P (loop_exit_state (dispatch_loop sub obs acts))"
  using init
proof (induction acts arbitrary: obs)
  case Nil
  then show ?case by simp
next
  case (Cons a acts)
  show ?case
  proof (cases a)
    case Get
    show ?thesis
    proof (cases "event_queue obs")
      case Nil
      with Get Cons show ?thesis by simp
    next
      case (Cons x q)
      obtain p e where x: "x = (p, e)" by (cases x)
      have P': "P (obs\<lparr>event_queue := q\<rparr>)" using Cons.prems by (rule que)
      from Cons.IH [OF P'] P' show ?thesis
        using Get Cons x by (simp add: Let_def split: option.splits)
    qed
  next
    case Interrupt
    with Cons.prems show ?thesis by simp
  next
    case (Call_add_rule p h)
    from Cons.IH [OF env [OF Cons.prems, of a]] show ?thesis
      using Call_add_rule by simp
  next
    case (Call_remove_rule p)
    from Cons.IH [OF env [OF Cons.prems, of a]] show ?thesis
      using Call_remove_rule by simp
  next
    case Call_stop
    from Cons.IH [OF env [OF Cons.prems, of a]] show ?thesis
      using Call_stop by simp
  next
    case (Producer_cycle t acq)
    from Cons.IH [OF env [OF Cons.prems, of a]] show ?thesis
      using Producer_cycle by simp
  qed
qed

lemma dispatch_loop_unstarted:
  "unstarted obs u \<Longrightarrow> unstarted (loop_exit_state (dispatch_loop sub obs acts)) u"
  by (rule dispatch_loop_invariant [where P = "\<lambda>obs. unstarted obs u"])
     (simp_all add: unstarted_env_step, simp add: unstarted_def)

lemma dispatch_loop_next_tid:
  "v \<le> next_tid obs \<Longrightarrow> v \<le> next_tid (loop_exit_state (dispatch_loop sub obs acts))"
proof (rule dispatch_loop_invariant [where P = "\<lambda>obs. v \<le> next_tid obs"])
  fix a and obs :: "'a observer"
  assume "v \<le> next_tid obs"
  then show "v \<le> next_tid (env_step sub a obs)"
    using next_tid_env_step [of obs sub a] by simp
qed simp_all

subsection \<open>Extending an execution\<close>

lemma dispatch_loop_append_Blocked:
  "dispatch_loop sub obs pre = Blocked obs' \<Longrightarrow>
   dispatch_loop sub obs (pre @ acts) = dispatch_loop sub obs' acts"
  by (induction sub obs pre rule: dispatch_loop.induct)
     (auto split: list.splits option.splits if_splits simp: Let_def)

lemma dispatch_loop_append_Interrupted:
  "dispatch_loop sub obs pre = Interrupted obs' rest \<Longrightarrow>
   dispatch_loop sub obs (pre @ acts) = Interrupted obs' (rest @ acts)"
  by (induction sub obs pre rule: dispatch_loop.induct)
     (auto split: list.splits option.splits if_splits simp: Let_def)

lemma run_from_blocked_continues:
  "run_from sub n0 v0 ts obs pre = Run_blocked obs1 \<Longrightarrow>
   \<exists>t ts'. \<forall>acts.
     run_from sub n0 v0 ts obs (pre @ acts) =
       (case dispatch_loop sub obs1 acts of
          Interrupted obs2 rest \<Rightarrow> run_from sub n0 v0 ts' (on_thread t producer_stop obs2) rest
        | Failed e obs2 \<Rightarrow> Run_raised e obs2
        | Blocked obs2 \<Rightarrow> Run_blocked obs2)"
proof (induction ts arbitrary: obs pre)
  case Nil
  then show ?case by (simp split: if_splits)
next
  case (Cons t ts)
  from Cons.prems obtain pr where
    c: "length (event_producer_threads obs) = n0" "next_tid obs = v0"
       "heap obs t = Some pr" "tstate pr = Initial"
    by (auto split: if_splits option.splits)
  let ?obs1 = "obs\<lparr>heap := (heap obs)(t \<mapsto> pr\<lparr>tstate := Alive\<rparr>)\<rparr>"
  show ?case
  proof (cases "dispatch_loop sub ?obs1 pre")
    case (Interrupted o2 rest)
    with Cons.prems c
    have "run_from sub n0 v0 ts (on_thread t producer_stop o2) rest = Run_blocked obs1"
      by simp
    from Cons.IH [OF this] obtain u us where
      "\<forall>acts. run_from sub n0 v0 ts (on_thread t producer_stop o2) (rest @ acts) =
         (case dispatch_loop sub obs1 acts of
            Interrupted obs2 rest' \<Rightarrow> run_from sub n0 v0 us (on_thread u producer_stop obs2) rest'
          | Failed e obs2 \<Rightarrow> Run_raised e obs2
          | Blocked obs2 \<Rightarrow> Run_blocked obs2)"
      by blast
    then show ?thesis
      using c dispatch_loop_append_Interrupted [OF Interrupted] by auto
  next
    case (Failed x o2)
    with Cons.prems c show ?thesis by simp
  next
    case (Blocked o2)
    with Cons.prems c have "o2 = obs1" by simp
    with Blocked c have
      "\<forall>acts. run_from sub n0 v0 (t # ts) obs (pre @ acts) =
         (case dispatch_loop sub obs1 acts of
            Interrupted obs2 rest \<Rightarrow> run_from sub n0 v0 ts (on_thread t producer_stop obs2) rest
          | Failed e obs2 \<Rightarrow> Run_raised e obs2
          | Blocked obs2 \<Rightarrow> Run_blocked obs2)"
      by (simp add: dispatch_loop_append_Blocked)
    then show ?thesis by blast
  qed
qed

lemma run_from_append_Failed:
  assumes "run_from sub n0 v0 ts obs pre = Run_blocked obs'"
    and "dispatch_loop sub obs' acts = Failed e obs''"
  shows "run_from sub n0 v0 ts obs (pre @ acts) = Run_raised e obs''"
  using run_from_blocked_continues [OF assms(1)] assms(2) by auto

lemma run_from_iterator_invalid:
  "next_tid obs \<noteq> v0 \<Longrightarrow> outcome_state (run_from sub n0 v0 ts obs acts) = obs"
  by (cases ts) simp_all

lemma run_from_next_tid:
  "v \<le> next_tid obs \<Longrightarrow> v \<le> next_tid (outcome_state (run_from sub n0 v0 ts obs acts))"
proof (induction ts arbitrary: obs acts)
  case Nil
  then show ?case by simp
next
  case (Cons t ts)
  show ?case
  proof (cases "length (event_producer_threads obs) = n0 \<and> next_tid obs = v0")
    case False
    with Cons.prems show ?thesis by auto
  next
    case True
    show ?thesis
    proof (cases "heap obs t")
      case None
      with True Cons.prems show ?thesis by simp
    next
      case (Some pr)
      let ?obs1 = "obs\<lparr>heap := (heap obs)(t \<mapsto> pr\<lparr>tstate := Alive\<rparr>)\<rparr>"
      have v1: "v \<le> next_tid ?obs1" using Cons.prems by simp
      have v2: "v \<le> next_tid (loop_exit_state (dispatch_loop sub ?obs1 acts))"
        using v1 by (rule dispatch_loop_next_tid)
      show ?thesis
      proof (cases "tstate pr = Initial")
        case False
        with True Some Cons.prems show ?thesis by simp
      next
        case Initial: True
        show ?thesis
        proof (cases "dispatch_loop sub ?obs1 acts")
          case (Interrupted o2 rest)
          with v2 have "v \<le> next_tid (on_thread t producer_stop o2)" by simp
          from Cons.IH [OF this] show ?thesis
            using True Some Initial Interrupted by simp
        next
          case (Failed e o2)
          with v2 True Some Initial show ?thesis by simp
        next
          case (Blocked o2)
          with v2 True Some Initial show ?thesis by simp
        qed
      qed
    qed
  qed
qed

subsection \<open>Executions without \<open>KeyboardInterrupt\<close>\<close>

lemma quiet_env_step:
  "quiet_observer obs \<Longrightarrow> quiet_action a \<Longrightarrow> quiet_observer (env_step sub a obs)"
  by (cases a)
     (auto simp add: quiet_observer_def rules_add_rule rules_remove_rule
           split: option.splits if_splits)

lemma dispatch_loop_quiet:
  "quiet_observer obs \<Longrightarrow> list_all quiet_action acts \<Longrightarrow>
   dispatch_loop sub obs acts \<noteq> Interrupted obs' rest"
proof (induction acts arbitrary: obs)
  case Nil
  then show ?case by simp
next
  case (Cons a acts)
  from Cons.prems have qa: "quiet_action a" and qs: "list_all quiet_action acts"
    by simp_all
  show ?case
  proof (cases a)
    case Get
    show ?thesis
    proof (cases "event_queue obs")
      case Nil
      with Get Cons.IH [OF Cons.prems(1) qs] show ?thesis by simp
    next
      case (Cons x q)
      obtain p e where x: "x = (p, e)" by (cases x)
      have q': "quiet_observer (obs\<lparr>event_queue := q\<rparr>)"
        using Cons.prems(1) by (simp add: quiet_observer_def)
      have h: "rules obs p = Some r \<Longrightarrow> event_handler r e \<noteq> Some KeyboardInterrupt" for r
        using Cons.prems(1) by (simp add: quiet_observer_def quiet_handler_def)
      from Cons.IH [OF q' qs] h show ?thesis
        using Get Cons x by (auto simp add: Let_def split: option.splits)
    qed
  next
    case Interrupt
    with qa show ?thesis by simp
  next
    case (Call_add_rule p h)
    from Cons.IH [OF quiet_env_step [OF Cons.prems(1) qa] qs] show ?thesis
      using Call_add_rule by simp
  next
    case (Call_remove_rule p)
    from Cons.IH [OF quiet_env_step [OF Cons.prems(1) qa] qs] show ?thesis
      using Call_remove_rule by simp
  next
    case Call_stop
    from Cons.IH [OF quiet_env_step [OF Cons.prems(1) qa] qs] show ?thesis
      using Call_stop by simp
  next
    case (Producer_cycle t acq)
    from Cons.IH [OF quiet_env_step [OF Cons.prems(1) qa] qs] show ?thesis
      using Producer_cycle by simp
  qed
qed

lemma run_from_quiet:
  assumes "ts \<noteq> []" and "quiet_observer obs" and "list_all quiet_action acts"
  shows "run_from sub n0 v0 ts obs acts \<noteq> Run_returned obs'"
proof -
  from assms(1) obtain t ts' where ts: "ts = t # ts'" by (cases ts) auto
  have q: "quiet_observer (obs\<lparr>heap := hp\<rparr>)" for hp
    using assms(2) by (simp add: quiet_observer_def)
  show ?thesis
    using dispatch_loop_quiet [OF q assms(3)] ts
    by (auto split: option.splits loop_exit.splits)
qed

lemma run_from_quiet_unstarted:
  assumes "quiet_observer obs" and "list_all quiet_action acts"
    and "u \<noteq> t" and "unstarted obs u"
  shows "unstarted (outcome_state (run_from sub n0 v0 (t # ts) obs acts)) u"
proof (cases "heap obs t")
  case None
  with assms(4) show ?thesis by simp
next
  case (Some pr)
  let ?obs1 = "obs\<lparr>heap := (heap obs)(t \<mapsto> pr\<lparr>tstate := Alive\<rparr>)\<rparr>"
  have q: "quiet_observer ?obs1"
    using assms(1) by (simp add: quiet_observer_def)
  have "unstarted ?obs1 u"
    using assms(3,4) by (simp add: unstarted_def)
  then have u: "unstarted (loop_exit_state (dispatch_loop sub ?obs1 acts)) u"
    by (rule dispatch_loop_unstarted)
  show ?thesis
  proof (cases "dispatch_loop sub ?obs1 acts")
    case (Interrupted o2 rest)
    with dispatch_loop_quiet [OF q assms(2)] show ?thesis by simp
  next
    case (Failed e o2)
    with u Some assms(4) show ?thesis by simp
  next
    case (Blocked o2)
    with u Some assms(4) show ?thesis by simp
  qed
qed

subsection \<open>The producer set and the rule table\<close>

lemma rule_owned_iff:
  "rule_owned obs t \<longleftrightarrow>
     t < next_tid obs \<and>
     (\<exists>pr r. heap obs t = Some pr \<and> rules obs (path pr) = Some r \<and>
             event_producer_thread r = t)"
  by (auto simp add: rule_owned_def split: option.splits)

lemma registered_iff:
  "registered obs \<longleftrightarrow>
     distinct (event_producer_threads obs) \<and>
     (\<forall>t \<in> set (event_producer_threads obs). rule_owned obs t)"
  by (simp add: registered_def list_all_iff)

lemma registered_init: "registered (init_observer i)"
  by (simp add: registered_def init_observer_def)

lemma registered_queue: "registered (obs\<lparr>event_queue := q\<rparr>) = registered obs"
  by (simp add: registered_iff rule_owned_iff)

lemma registered_heap_upd:
  assumes "registered obs" and "heap obs t = Some pr" and "path pr' = path pr"
  shows "registered (obs\<lparr>heap := (heap obs)(t \<mapsto> pr')\<rparr>)"
  using assms by (auto simp add: registered_iff rule_owned_iff)

lemma registered_on_thread_stop:
  "registered obs \<Longrightarrow> registered (on_thread t producer_stop obs)"
  by (cases "heap obs t")
     (simp_all add: on_thread_def registered_heap_upd producer_stop_def)

lemma registered_fold_stop:
  "registered obs \<Longrightarrow> registered (fold (\<lambda>t. on_thread t producer_stop) ts obs)"
  by (induction ts arbitrary: obs) (simp_all add: registered_on_thread_stop)

lemma registered_observer_stop: "registered obs \<Longrightarrow> registered (observer_stop obs)"
  by (simp add: observer_stop_def registered_fold_stop)

lemma registered_add_rule:
  assumes "registered obs"
  shows "registered (add_rule p h obs)"
proof (cases "rules obs p")
  case (Some r)
  with assms show ?thesis by (simp add: add_rule_def)
next
  case None
  let ?n = "next_tid obs"
  let ?obs' = "add_rule p h obs"
  have ts: "event_producer_threads ?obs' = event_producer_threads obs @ [?n]"
    using None by (simp add: add_rule_def Let_def)
  have fresh: "?n \<notin> set (event_producer_threads obs)"
    using assms by (auto simp add: registered_iff rule_owned_iff)
  have new: "rule_owned ?obs' ?n"
    using None by (simp add: rule_owned_iff add_rule_def Let_def init_producer_def)
  have old: "rule_owned ?obs' t" if t: "t \<in> set (event_producer_threads obs)" for t
  proof -
    from assms t obtain pr r where
      o: "t < ?n" "heap obs t = Some pr" "rules obs (path pr) = Some r"
         "event_producer_thread r = t"
      by (auto simp add: registered_iff rule_owned_iff)
    from o(3) None have "path pr \<noteq> p" by auto
    with o show ?thesis
      using None by (simp add: rule_owned_iff add_rule_def Let_def)
  qed
  from assms have "distinct (event_producer_threads obs)" by (simp add: registered_iff)
  with fresh new old show ?thesis
    by (auto simp add: registered_iff ts)
qed

lemma registered_remove_rule:
  assumes "registered obs"
  shows "registered (fst (remove_rule p obs))"
proof (cases "rules obs p")
  case None
  with assms show ?thesis by (simp add: remove_rule_def)
next
  case (Some r)
  let ?t = "event_producer_thread r"
  let ?obs1 = "on_thread ?t producer_stop (obs\<lparr>rules := (rules obs)(p := None)\<rparr>)"
  have d: "distinct (event_producer_threads obs)"
    using assms by (simp add: registered_iff)
  have old: "rule_owned ?obs1 u"
    if u: "u \<in> set (event_producer_threads obs)" and ne: "u \<noteq> ?t" for u
  proof -
    from assms u obtain pr r' where
      o: "u < next_tid obs" "heap obs u = Some pr" "rules obs (path pr) = Some r'"
         "event_producer_thread r' = u"
      by (auto simp add: registered_iff rule_owned_iff)
    from o(3,4) Some ne have "path pr \<noteq> p" by auto
    with o ne show ?thesis
      by (simp add: rule_owned_iff heap_on_thread)
  qed
  have own_ts: "rule_owned (obs'\<lparr>event_producer_threads := ts\<rparr>) u = rule_owned obs' u"
    for obs' :: "'a observer" and ts u
    by (simp add: rule_owned_iff)
  show ?thesis
  proof (cases "?t \<in> set (event_producer_threads obs)")
    case True
    then have r: "fst (remove_rule p obs) =
                 ?obs1\<lparr>event_producer_threads := remove1 ?t (event_producer_threads obs)\<rparr>"
      using Some by (simp add: remove_rule_def Let_def)
    show ?thesis
      unfolding r using d old
      by (auto simp add: registered_iff own_ts)
  next
    case False
    then have r: "fst (remove_rule p obs) = ?obs1"
      using Some by (simp add: remove_rule_def Let_def)
    show ?thesis
      unfolding r using d old False
      by (auto simp add: registered_iff)
  qed
qed

lemma registered_producer_cycle:
  assumes "registered obs"
  shows "registered (producer_cycle sub t acq obs)"
proof (cases "heap obs t")
  case None
  with assms show ?thesis by (simp add: producer_cycle_def)
next
  case (Some pr)
  show ?thesis
  proof (cases "tstate pr = Alive")
    case False
    with Some assms show ?thesis by (simp add: producer_cycle_def)
  next
    case True
    obtain pr' q' st where
      r: "producer_run sub
            [\<lparr>stop_during_wait = False, acquired = acq, stop_during_poll = False\<rparr>]
            pr (event_queue obs) = (pr', q', st)"
      by (cases "producer_run sub
            [\<lparr>stop_during_wait = False, acquired = acq, stop_during_poll = False\<rparr>]
            pr (event_queue obs)") auto
    from producer_run_path [OF r] have "path pr' = path pr" .
    then have "registered
        (obs\<lparr>heap := (heap obs)
               (t \<mapsto> pr'\<lparr>tstate := (if st = Unfinished then Alive else Finished)\<rparr>)\<rparr>)"
      using assms Some by (intro registered_heap_upd) simp_all
    then have "registered
        (obs\<lparr>heap := (heap obs)
               (t \<mapsto> pr'\<lparr>tstate := (if st = Unfinished then Alive else Finished)\<rparr>)\<rparr>
            \<lparr>event_queue := q'\<rparr>)"
      by (simp only: registered_queue)
    then show ?thesis
      using Some True r by (simp add: producer_cycle_def)
  qed
qed

lemma registered_env_step: "registered obs \<Longrightarrow> registered (env_step sub a obs)"
  by (cases a)
     (simp_all add: registered_add_rule registered_remove_rule registered_observer_stop
        registered_producer_cycle)

lemma registered_dispatch_loop:
  "registered obs \<Longrightarrow> registered (loop_exit_state (dispatch_loop sub obs acts))"
  by (rule dispatch_loop_invariant [where P = registered])
     (simp_all add: registered_env_step registered_queue)

lemma registered_run_from:
  "registered obs \<Longrightarrow> registered (outcome_state (run_from sub n0 v0 ts obs acts))"
proof (induction ts arbitrary: obs acts)
  case Nil
  then show ?case by simp
next
  case (Cons t ts)
  show ?case
  proof (cases "heap obs t")
    case None
    with Cons.prems show ?thesis by simp
  next
    case (Some pr)
    let ?obs1 = "obs\<lparr>heap := (heap obs)(t \<mapsto> pr\<lparr>tstate := Alive\<rparr>)\<rparr>"
    have "registered ?obs1"
      using Cons.prems Some by (intro registered_heap_upd) simp_all
    then have r: "registered (loop_exit_state (dispatch_loop sub ?obs1 acts))"
      by (rule registered_dispatch_loop)
    show ?thesis
    proof (cases "dispatch_loop sub ?obs1 acts")
      case (Interrupted o2 rest)
      with r have "registered (on_thread t producer_stop o2)"
        by (simp add: registered_on_thread_stop)
      from Cons.IH [OF this] show ?thesis
        using Some Interrupted Cons.prems by simp
    next
      case (Failed e o2)
      with r Some Cons.prems show ?thesis by simp
    next
      case (Blocked o2)
      with r Some Cons.prems show ?thesis by simp
    qed
  qed
qed

lemma registered_at_most_one:
  assumes "registered obs"
  shows "length (producers_of obs p) \<le> 1"
proof -
  have d: "distinct (producers_of obs p)"
    using assms by (simp add: registered_iff producers_of_def)
  have own: "\<exists>r. rules obs p = Some r \<and> event_producer_thread r = t"
    if "t \<in> set (producers_of obs p)" for t
  proof -
    from that have t: "t \<in> set (event_producer_threads obs)"
      and "\<exists>pr. heap obs t = Some pr \<and> path pr = p"
      by (auto simp add: producers_of_def split: option.splits)
    then obtain pr where pr: "heap obs t = Some pr" "path pr = p" by blast
    from assms t have "rule_owned obs t" by (simp add: registered_iff)
    with pr show ?thesis by (auto simp add: rule_owned_iff)
  qed
  have "t = u" if "t \<in> set (producers_of obs p)" and "u \<in> set (producers_of obs p)" for t u
    using own [OF that(1)] own [OF that(2)] by auto
  then have "set (producers_of obs p) \<subseteq> {hd (producers_of obs p)}"
    by (cases "producers_of obs p") auto
  then have "card (set (producers_of obs p)) \<le> card {hd (producers_of obs p)}"
    by (intro card_mono) simp_all
  with d show ?thesis by (simp add: distinct_card)
qed


subsection \<open>The set iterator\<close>

lemma remove_rule_threads:
  "event_producer_threads (fst (remove_rule p obs)) = event_producer_threads obs \<or>
   length (event_producer_threads (fst (remove_rule p obs)))
     < length (event_producer_threads obs)"
proof (cases "rules obs p")
  case None
  then show ?thesis by (simp add: remove_rule_def)
next
  case (Some r)
  let ?t = "event_producer_thread r"
  show ?thesis
  proof (cases "?t \<in> set (event_producer_threads obs)")
    case True
    then have "0 < length (event_producer_threads obs)" by (rule length_pos_if_in_set)
    with True Some show ?thesis
      by (simp add: remove_rule_def Let_def length_remove1)
  next
    case False
    with Some show ?thesis by (simp add: remove_rule_def Let_def)
  qed
qed

lemma iterator_sound_env_step:
  assumes "iterator_sound ts0 v0 obs"
  shows "iterator_sound ts0 v0 (env_step sub a obs)"
proof (cases a)
  case (Call_add_rule p h)
  with assms show ?thesis
    by (auto simp add: iterator_sound_def add_rule_def Let_def split: option.splits)
next
  case (Call_remove_rule p)
  from remove_rule_threads [of p obs] assms show ?thesis
    unfolding Call_remove_rule iterator_sound_def by auto
qed (use assms in \<open>simp_all add: iterator_sound_def\<close>)

lemma iterator_sound_dispatch_loop:
  "iterator_sound ts0 v0 obs \<Longrightarrow>
   iterator_sound ts0 v0 (loop_exit_state (dispatch_loop sub obs acts))"
  by (rule dispatch_loop_invariant [where P = "iterator_sound ts0 v0"])
     (simp_all add: iterator_sound_env_step, simp add: iterator_sound_def)

subsection \<open>Live producers\<close>

lemma live_in_set_iff:
  "live_in_set obs \<longleftrightarrow>
     (\<forall>t < next_tid obs. live obs t \<longrightarrow> t \<in> set (event_producer_threads obs))"
  by (auto simp add: live_in_set_def list_all_iff)

lemma live_on_thread_stop:
  "live (on_thread t producer_stop obs) u \<Longrightarrow> live obs u \<and> u \<noteq> t"
  by (auto simp add: live_def heap_on_thread producer_stop_def split: option.splits if_splits)

lemma live_in_set_on_thread_stop:
  "live_in_set obs \<Longrightarrow> live_in_set (on_thread t producer_stop obs)"
  by (auto simp add: live_in_set_iff dest: live_on_thread_stop)

lemma live_observer_stop: "live (observer_stop obs) u \<Longrightarrow> live obs u"
  by (auto simp add: live_def heap_observer_stop producer_stop_def
           split: option.splits if_splits)

lemma live_producer_cycle: "live (producer_cycle sub t acq obs) u \<Longrightarrow> live obs u"
proof (cases "u = t")
  case False
  assume "live (producer_cycle sub t acq obs) u"
  with False show ?thesis by (simp add: live_def heap_producer_cycle)
next
  case True
  assume l: "live (producer_cycle sub t acq obs) u"
  show ?thesis
  proof (cases "heap obs t")
    case None
    with l True show ?thesis by (simp add: live_def heap_producer_cycle)
  next
    case (Some pr)
    show ?thesis
    proof (cases "tstate pr = Alive \<and> stopped pr")
      case True
      then have "producer_run sub
                   [\<lparr>stop_during_wait = False, acquired = acq, stop_during_poll = False\<rparr>]
                   pr (event_queue obs) = (pr, event_queue obs, Returned)"
        by (simp add: producer_run_stopped)
      with l \<open>u = t\<close> Some True show ?thesis
        by (simp add: live_def heap_producer_cycle)
    next
      case False
      with l \<open>u = t\<close> Some show ?thesis
        by (auto simp add: live_def heap_producer_cycle split: if_splits prod.splits)
    qed
  qed
qed

lemma live_in_set_env_step:
  assumes "live_in_set obs"
  shows "live_in_set (env_step sub a obs)"
proof (cases a)
  case (Call_add_rule p h)
  show ?thesis
  proof (cases "rules obs p")
    case (Some r)
    with assms Call_add_rule show ?thesis by (simp add: add_rule_def)
  next
    case None
    have "live (add_rule p h obs) u \<Longrightarrow> live obs u \<and> u \<noteq> next_tid obs" for u
      using None
      by (auto simp add: live_def add_rule_def Let_def init_producer_def split: if_splits)
    with assms None Call_add_rule show ?thesis
      by (auto simp add: live_in_set_iff add_rule_def Let_def less_Suc_eq)
  qed
next
  case (Call_remove_rule p)
  show ?thesis
  proof (cases "rules obs p")
    case None
    with assms Call_remove_rule show ?thesis by (simp add: remove_rule_def)
  next
    case (Some r)
    let ?t = "event_producer_thread r"
    let ?obs1 = "on_thread ?t producer_stop (obs\<lparr>rules := (rules obs)(p := None)\<rparr>)"
    have l: "live ?obs1 u \<Longrightarrow> live obs u \<and> u \<noteq> ?t" for u
      using live_on_thread_stop [of ?t "obs\<lparr>rules := (rules obs)(p := None)\<rparr>" u]
      by (simp add: live_def)
    have e: "live (obs'\<lparr>event_producer_threads := ts\<rparr>) u = live obs' u"
      for obs' :: "'a observer" and ts u
      by (simp add: live_def)
    show ?thesis
      using assms Some Call_remove_rule
      by (auto simp add: live_in_set_iff remove_rule_def Let_def e dest!: l)
  qed
next
  case Call_stop
  with assms show ?thesis
    by (auto simp add: live_in_set_iff dest: live_observer_stop)
next
  case (Producer_cycle t acq)
  with assms show ?thesis
    by (auto simp add: live_in_set_iff dest: live_producer_cycle)
qed (use assms in simp_all)

lemma live_in_set_dispatch_loop:
  "live_in_set obs \<Longrightarrow> live_in_set (loop_exit_state (dispatch_loop sub obs acts))"
  by (rule dispatch_loop_invariant [where P = live_in_set])
     (simp_all add: live_in_set_env_step, simp add: live_in_set_iff live_def)

lemma live_in_set_run_from:
  assumes "live_in_set obs" and "iterator_sound ts0 v0 obs" and "set ts \<subseteq> set ts0"
  shows "live_in_set (outcome_state (run_from sub (length ts0) v0 ts obs acts))"
  using assms
proof (induction ts arbitrary: obs acts)
  case Nil
  then show ?case by simp
next
  case (Cons t ts)
  show ?case
  proof (cases "length (event_producer_threads obs) = length ts0 \<and> next_tid obs = v0")
    case False
    with Cons.prems(1) show ?thesis by auto
  next
    case True
    with Cons.prems(2) have same: "event_producer_threads obs = ts0"
      by (simp add: iterator_sound_def)
    show ?thesis
    proof (cases "heap obs t")
      case None
      with True Cons.prems(1) show ?thesis by simp
    next
      case (Some pr)
      let ?obs1 = "obs\<lparr>heap := (heap obs)(t \<mapsto> pr\<lparr>tstate := Alive\<rparr>)\<rparr>"
      have "t \<in> set (event_producer_threads obs)"
        using Cons.prems(3) same by simp
      then have l1: "live_in_set ?obs1"
        using Cons.prems(1) by (auto simp add: live_in_set_iff live_def)
      have i1: "iterator_sound ts0 v0 ?obs1"
        using Cons.prems(2) by (simp add: iterator_sound_def)
      have l2: "live_in_set (loop_exit_state (dispatch_loop sub ?obs1 acts))"
        using l1 by (rule live_in_set_dispatch_loop)
      have i2: "iterator_sound ts0 v0 (loop_exit_state (dispatch_loop sub ?obs1 acts))"
        using i1 by (rule iterator_sound_dispatch_loop)
      show ?thesis
      proof (cases "tstate pr = Initial")
        case False
        with True Some Cons.prems(1) show ?thesis by simp
      next
        case Initial: True
        show ?thesis
        proof (cases "dispatch_loop sub ?obs1 acts")
          case (Interrupted o2 rest)
          with l2 have l3: "live_in_set (on_thread t producer_stop o2)"
            by (simp add: live_in_set_on_thread_stop)
          from Interrupted i2 have i3: "iterator_sound ts0 v0 (on_thread t producer_stop o2)"
            by (simp add: iterator_sound_def)
          from Cons.prems(3) have "set ts \<subseteq> set ts0" by simp
          from Cons.IH [OF l3 i3 this] show ?thesis
            using True Some Initial Interrupted by simp
        next
          case (Failed e o2)
          with l2 True Some Initial show ?thesis by simp
        next
          case (Blocked o2)
          with l2 True Some Initial show ?thesis by simp
        qed
      qed
    qed
  qed
qed

lemma live_in_set_observer_run:
  assumes "live_in_set obs"
  shows "live_in_set (outcome_state (observer_run sub obs acts))"
  unfolding observer_run_def
  by (rule live_in_set_run_from [OF assms]) (simp_all add: iterator_sound_def)

lemma live_at_most_one:
  assumes "registered obs" and "live_in_set obs"
  shows "length (live_producers_of obs p) \<le> 1"
proof -
  have d: "distinct (live_producers_of obs p)"
    by (simp add: live_producers_of_def)
  have "set (live_producers_of obs p) \<subseteq> set (producers_of obs p)"
    using assms(2)
    by (auto simp add: live_producers_of_def producers_of_def live_in_set_iff)
  then have "card (set (live_producers_of obs p)) \<le> card (set (producers_of obs p))"
    by (intro card_mono) simp_all
  also have "\<dots> \<le> length (producers_of obs p)" by (rule card_length)
  also have "\<dots> \<le> 1" using assms(1) by (rule registered_at_most_one)
  finally show ?thesis using d by (simp add: distinct_card)
qed

lemma live_in_set_init: "live_in_set (init_observer i)"
  by (simp add: live_in_set_def init_observer_def)

lemma live_in_set_observer_stop: "live_in_set obs \<Longrightarrow> live_in_set (observer_stop obs)"
  using live_in_set_env_step [of obs _ Call_stop] by simp

lemma live_in_set_add_rule: "live_in_set obs \<Longrightarrow> live_in_set (add_rule p h obs)"
  using live_in_set_env_step [of obs _ "Call_add_rule p h"] by simp

lemma live_in_set_remove_rule: "live_in_set obs \<Longrightarrow> live_in_set (fst (remove_rule p obs))"
  using live_in_set_env_step [of obs _ "Call_remove_rule p"] by simp

subsection \<open>The \<open>for\<close> loop with a changed set\<close>

declare run_iter.simps [simp del]

lemma run_iter_size:
  "length (event_producer_threads obs) \<noteq> n0 \<Longrightarrow>
   run_iter sub n0 v0 ts cs obs acts = Run_raised RuntimeError obs"
  by (subst run_iter.simps) simp

lemma run_iter_untouched_Nil:
  "length (event_producer_threads obs) = n0 \<Longrightarrow> next_tid obs = v0 \<Longrightarrow>
   run_iter sub n0 v0 [] cs obs acts = Run_returned obs"
  by (subst run_iter.simps) simp

lemma run_iter_untouched_Cons:
  "length (event_producer_threads obs) = n0 \<Longrightarrow> next_tid obs = v0 \<Longrightarrow>
   run_iter sub n0 v0 (t # ts) cs obs acts =
     (case for_pass sub t obs acts of
        Pass_interrupted obs' acts' \<Rightarrow> run_iter sub n0 v0 ts cs obs' acts'
      | Pass_ended out \<Rightarrow> out)"
  by (subst run_iter.simps) simp

lemma run_iter_changed:
  "length (event_producer_threads obs) = n0 \<Longrightarrow> next_tid obs \<noteq> v0 \<Longrightarrow>
   run_iter sub n0 v0 ts cs obs acts =
     (case cs of
        [] \<Rightarrow> Run_returned obs
      | None # cs' \<Rightarrow> Run_returned obs
      | Some t # cs' \<Rightarrow>
          if t \<in> set (event_producer_threads obs)
          then
            (case for_pass sub t obs acts of
               Pass_interrupted obs' acts' \<Rightarrow> run_iter sub n0 v0 ts cs' obs' acts'
             | Pass_ended out \<Rightarrow> out)
          else Run_returned obs)"
  by (subst run_iter.simps) simp

lemma run_from_Cons_for_pass:
  "length (event_producer_threads obs) = n0 \<Longrightarrow> next_tid obs = v0 \<Longrightarrow>
   run_from sub n0 v0 (t # ts) obs acts =
     (case for_pass sub t obs acts of
        Pass_interrupted obs' acts' \<Rightarrow> run_from sub n0 v0 ts obs' acts'
      | Pass_ended out \<Rightarrow> out)"
  by (simp add: for_pass_def split: option.splits loop_exit.splits)

lemma run_iter_run_from:
  "(\<And>ob. run_from sub n0 v0 ts obs acts \<noteq> Unmodelled ob) \<Longrightarrow>
   run_iter sub n0 v0 ts cs obs acts = run_from sub n0 v0 ts obs acts"
proof (induction ts arbitrary: obs acts)
  case Nil
  from Nil [of obs] show ?case
    by (cases "length (event_producer_threads obs) = n0"; cases "next_tid obs = v0")
       (simp_all add: run_iter_size run_iter_untouched_Nil)
next
  case (Cons t ts)
  show ?case
  proof (cases "length (event_producer_threads obs) = n0")
    case False
    then show ?thesis by (simp add: run_iter_size)
  next
    case size: True
    show ?thesis
    proof (cases "next_tid obs = v0")
      case False
      with size Cons.prems [of obs] show ?thesis by simp
    next
      case True
      show ?thesis
      proof (cases "for_pass sub t obs acts")
        case (Pass_interrupted o2 rest)
        have eq: "run_from sub n0 v0 (t # ts) obs acts = run_from sub n0 v0 ts o2 rest"
          using size True Pass_interrupted
          by (simp add: run_from_Cons_for_pass del: run_from.simps)
        with Cons.prems
        have "\<And>ob. run_from sub n0 v0 ts o2 rest \<noteq> Unmodelled ob"
          by simp
        from Cons.IH [OF this] show ?thesis
          using size True Pass_interrupted eq
          by (simp add: run_iter_untouched_Cons del: run_from.simps)
      next
        case (Pass_ended out)
        with size True show ?thesis
          by (simp add: run_iter_untouched_Cons run_from_Cons_for_pass del: run_from.simps)
      qed
    qed
  qed
qed

lemma observer_run_iter_observer_run:
  "(\<And>ob. observer_run sub obs acts \<noteq> Unmodelled ob) \<Longrightarrow>
   observer_run_iter sub cs obs acts = observer_run sub obs acts"
  unfolding observer_run_iter_def observer_run_def by (rule run_iter_run_from)

lemma registered_heap:
  "registered obs \<Longrightarrow> t \<in> set (event_producer_threads obs) \<Longrightarrow> \<exists>pr. heap obs t = Some pr"
  by (auto simp add: registered_iff rule_owned_iff)

lemma for_pass_consistent:
  assumes r: "registered obs" and l: "live_in_set obs" and i: "iterator_sound ts0 v0 obs"
    and t: "t \<in> set (event_producer_threads obs)"
  shows "case for_pass sub t obs acts of
           Pass_interrupted obs' acts' \<Rightarrow>
             registered obs' \<and> live_in_set obs' \<and> iterator_sound ts0 v0 obs'
         | Pass_ended out \<Rightarrow>
             registered (outcome_state out) \<and> live_in_set (outcome_state out) \<and>
             (\<forall>ob. out \<noteq> Unmodelled ob)"
proof -
  from registered_heap [OF r t] obtain pr where pr: "heap obs t = Some pr" by blast
  let ?obs1 = "obs\<lparr>heap := (heap obs)(t \<mapsto> pr\<lparr>tstate := Alive\<rparr>)\<rparr>"
  let ?ex = "dispatch_loop sub ?obs1 acts"
  have r1: "registered ?obs1"
    using r pr by (intro registered_heap_upd) simp_all
  have l1: "live_in_set ?obs1"
    using l t by (auto simp add: live_in_set_iff live_def)
  have i1: "iterator_sound ts0 v0 ?obs1"
    using i by (simp add: iterator_sound_def)
  have r2: "registered (loop_exit_state ?ex)" using r1 by (rule registered_dispatch_loop)
  have l2: "live_in_set (loop_exit_state ?ex)" using l1 by (rule live_in_set_dispatch_loop)
  have i2: "iterator_sound ts0 v0 (loop_exit_state ?ex)"
    using i1 by (rule iterator_sound_dispatch_loop)
  show ?thesis
  proof (cases "tstate pr = Initial")
    case False
    with pr r l show ?thesis by (simp add: for_pass_def)
  next
    case True
    show ?thesis
    proof (cases ?ex)
      case (Interrupted o2 rest)
      with r2 l2 i2 have "registered (on_thread t producer_stop o2)"
        and "live_in_set (on_thread t producer_stop o2)"
        and "iterator_sound ts0 v0 (on_thread t producer_stop o2)"
        by (simp_all add: registered_on_thread_stop live_in_set_on_thread_stop
              iterator_sound_def)
      with pr True Interrupted show ?thesis by (simp add: for_pass_def)
    next
      case (Failed e o2)
      with r2 l2 pr True show ?thesis by (simp add: for_pass_def)
    next
      case (Blocked o2)
      with r2 l2 pr True show ?thesis by (simp add: for_pass_def)
    qed
  qed
qed

lemma consistent_run_iter:
  assumes "n0 = length ts0" and "registered obs" and "live_in_set obs"
    and "iterator_sound ts0 v0 obs" and "set ts \<subseteq> set ts0"
  shows "registered (outcome_state (run_iter sub n0 v0 ts cs obs acts)) \<and>
         live_in_set (outcome_state (run_iter sub n0 v0 ts cs obs acts)) \<and>
         (\<forall>ob. run_iter sub n0 v0 ts cs obs acts \<noteq> Unmodelled ob)"
  using assms
proof (induction sub n0 v0 ts cs obs acts rule: run_iter.induct)
  case (1 sub n0 v0 ts cs obs acts)
  note r = "1.prems"(2) and l = "1.prems"(3) and i = "1.prems"(4)
  show ?case
  proof (cases "length (event_producer_threads obs) = n0")
    case False
    with r l show ?thesis by (simp add: run_iter_size)
  next
    case size: True
    show ?thesis
    proof (cases "next_tid obs = v0")
      case True
      show ?thesis
      proof (cases ts)
        case Nil
        with size True r l show ?thesis by (simp add: run_iter_untouched_Nil)
      next
        case (Cons t ts')
        from size True i "1.prems"(1) have "event_producer_threads obs = ts0"
          by (simp add: iterator_sound_def)
        with "1.prems"(5) Cons have t: "t \<in> set (event_producer_threads obs)" by simp
        note fp = for_pass_consistent [OF r l i t, of sub acts]
        show ?thesis
        proof (cases "for_pass sub t obs acts")
          case (Pass_interrupted o2 rest)
          with fp have c: "registered o2" "live_in_set o2" "iterator_sound ts0 v0 o2"
            by simp_all
          from "1.prems"(5) Cons have "set ts' \<subseteq> set ts0" by simp
          from "1.IH"(1) [OF _ True Cons Pass_interrupted "1.prems"(1) c this] size
          show ?thesis
            using size True Cons Pass_interrupted by (simp add: run_iter_untouched_Cons)
        next
          case (Pass_ended out)
          with fp size True Cons show ?thesis by (simp add: run_iter_untouched_Cons)
        qed
      qed
    next
      case False
      show ?thesis
      proof (cases cs)
        case Nil
        with size False r l show ?thesis by (simp add: run_iter_changed)
      next
        case (Cons c cs')
        show ?thesis
        proof (cases c)
          case None
          with Cons size False r l show ?thesis by (simp add: run_iter_changed)
        next
          case (Some t)
          show ?thesis
          proof (cases "t \<in> set (event_producer_threads obs)")
            case nm: False
            with Some Cons size False r l show ?thesis by (simp add: run_iter_changed)
          next
            case t: True
            note fp = for_pass_consistent [OF r l i t, of sub acts]
            show ?thesis
            proof (cases "for_pass sub t obs acts")
              case (Pass_interrupted o2 rest)
              with fp have c: "registered o2" "live_in_set o2" "iterator_sound ts0 v0 o2"
                by simp_all
              from "1.IH"(2) [OF _ False Cons Some t Pass_interrupted "1.prems"(1) c
                                "1.prems"(5)] size
              show ?thesis
                using size False Cons Some t Pass_interrupted
                by (simp add: run_iter_changed)
            next
              case (Pass_ended out)
              with fp Some Cons t size False show ?thesis by (simp add: run_iter_changed)
            qed
          qed
        qed
      qed
    qed
  qed
qed

lemma consistent_observer_run_iter:
  assumes "registered obs" and "live_in_set obs"
  shows "registered (outcome_state (observer_run_iter sub cs obs acts)) \<and>
         live_in_set (outcome_state (observer_run_iter sub cs obs acts)) \<and>
         (\<forall>ob. observer_run_iter sub cs obs acts \<noteq> Unmodelled ob)"
  unfolding observer_run_iter_def
  by (rule consistent_run_iter [OF refl assms]) (simp_all add: iterator_sound_def)

subsection \<open>Evaluating the examples\<close>

lemmas example_defs =
  observer_run_def two_rules_def one_rule_def add_rule_def init_observer_def
  init_producer_def producer_cycle_def poll_def get_directory_snapshot_diff_def
  emit_events_def put_def tree0_def tree1_def listing_sub_def removed_def changed_def
  remove_rule_def on_thread_def producer_stop_def observer_stop_def handler_ok_def
  handler_failing_def Let_def observer_run_iter_def for_pass_def

section \<open>Properties of the producer\<close>

text \<open>
  C8. The first poll of a producer stores the snapshot it takes as the baseline and puts
  nothing on the event queue. A producer that has not polled yet has no stored snapshot;
  for such a producer a poll whose snapshot is \<open>s\<close> stores \<open>s\<close> and leaves the queue as it
  is. In particular the first pass through the loop of a newly constructed producer does
  so, and the thread then stays in its loop.
\<close>

theorem first_poll_baseline:
  "(snapshot pr = None \<longrightarrow> poll sub (Inr s) pr q = Inr (pr\<lparr>snapshot := Some s\<rparr>, q)) \<and>
   producer_run sub [\<lparr>stop_during_wait = False, acquired = Inr s, stop_during_poll = False\<rparr>]
       (init_producer p i oq) q
     = ((init_producer p i oq)\<lparr>snapshot := Some s\<rparr>, q, Unfinished)"
  by (simp add: poll_baseline init_producer_def)

theorem first_poll_baseline_witness:
  "snapshot (init_producer ''/w'' 1 (Some Event_queue) :: listing producer) = None \<and>
   poll listing_sub (Inr tree0) (init_producer ''/w'' 1 (Some Event_queue)) [] =
     Inr ((init_producer ''/w'' 1 (Some Event_queue))\<lparr>snapshot := Some tree0\<rparr>, [])"
proof -
  have h: "snapshot (init_producer ''/w'' 1 (Some Event_queue) :: listing producer) = None"
    by (simp add: init_producer_def)
  from first_poll_baseline
    [of "init_producer ''/w'' 1 (Some Event_queue)" listing_sub tree0 "[]"] h
  show ?thesis by simp
qed

text \<open>
  C7, evaluated on the source. The loops over the directories run in the order modified,
  deleted, created, moved, while the loops over the files of the same function run in the
  order deleted, modified, created, moved. Between the snapshots \<open>tree0\<close> and \<open>tree1\<close> the
  file \<open>/w/g\<close> is created, the directory \<open>/w/a\<close> is deleted and the directory \<open>/w/b\<close> is
  modified: the poll enqueues the modification of \<open>/w/b\<close> before the deletion of \<open>/w/a\<close>,
  where the specification's order (deleted, modified, created, moved, for files and for
  directories) has the deletion first.
\<close>

theorem dirs_modified_before_deleted:
  "poll listing_sub (Inr tree1)
       ((init_producer ''/w'' 1 (Some Event_queue))\<lparr>snapshot := Some tree0\<rparr>) [] =
     Inr ((init_producer ''/w'' 1 (Some Event_queue))\<lparr>snapshot := Some tree1\<rparr>,
          [(''/w'', FileCreatedEvent ''/w/g''), (''/w'', DirModifiedEvent ''/w/b''),
           (''/w'', DirDeletedEvent ''/w/a'')]) \<and>
   spec_emission_order ''/w'' (listing_sub tree1 tree0) =
     [(''/w'', FileCreatedEvent ''/w/g''), (''/w'', DirDeletedEvent ''/w/a''),
      (''/w'', DirModifiedEvent ''/w/b'')]"
  by (simp add: poll_def get_directory_snapshot_diff_def emit_events_def put_def
        init_producer_def spec_emission_order_def listing_sub_def removed_def changed_def
        tree0_def tree1_def)

text \<open>
  How \<open>stop\<close> acts on the producer's \<open>run\<close>. Once the loop test has seen the flag, \<open>run\<close>
  returns without another poll. A \<open>stop\<close> that arrives after the loop test, while the
  producer waits or while its poll is running, does not keep the poll of that pass from
  running to its end: the poll stores the snapshot and enqueues the events as it would
  have without the \<open>stop\<close>, and then \<open>run\<close> returns.
\<close>

lemma producer_run_stop:
  "(stopped pr \<longrightarrow> producer_run sub cs pr q = (pr, q, Returned)) \<and>
   (\<not> stopped pr \<longrightarrow> poll sub (acquired c) pr q = Inr (pr2, q2) \<longrightarrow>
    stop_during_wait c \<or> stop_during_poll c \<longrightarrow>
      producer_run sub (c # cs) pr q = (producer_stop pr2, q2, Returned))"
proof (intro conjI impI)
  assume "stopped pr"
  then show "producer_run sub cs pr q = (pr, q, Returned)"
    by (rule producer_run_stopped)
next
  assume ns: "\<not> stopped pr" and p: "poll sub (acquired c) pr q = Inr (pr2, q2)"
    and st: "stop_during_wait c \<or> stop_during_poll c"
  let ?pr1 = "if stop_during_wait c then producer_stop pr else pr"
  let ?pr2 = "if stop_during_wait c then producer_stop pr2 else pr2"
  have p1: "poll sub (acquired c) ?pr1 q = Inr (?pr2, q2)"
    using p by (simp add: poll_stop_commute)
  have s3: "(if stop_during_poll c then producer_stop ?pr2 else ?pr2) = producer_stop pr2"
    using st by (auto simp: producer_stop_def)
  have "stopped (producer_stop pr2)" by (simp add: producer_stop_def)
  then have "producer_run sub cs (producer_stop pr2) q2 = (producer_stop pr2, q2, Returned)"
    by (rule producer_run_stopped)
  then show "producer_run sub (c # cs) pr q = (producer_stop pr2, q2, Returned)"
    using ns p1 s3 by (simp add: Let_def)
qed

text \<open>
  C5, evaluated on the source. The producer has its baseline \<open>tree0\<close> and waits in
  \<open>self.stopped.wait(self.interval)\<close>; \<open>stop\<close> is called. The wait reads the flag and
  returns at once, the result is thrown away, and the next statement starts a new poll:
  the snapshot \<open>tree1\<close> is taken and stored and three events are enqueued, after the
  producer has observed its stop flag. Only the loop test after that poll ends \<open>run\<close>.
  (The other half of the sentence holds: a poll in progress when \<open>stop\<close> is called
  completes, see the lemma above.)
\<close>

theorem poll_after_stop_during_wait:
  "producer_run listing_sub
       [\<lparr>stop_during_wait = True, acquired = Inr tree1, stop_during_poll = False\<rparr>,
        \<lparr>stop_during_wait = False, acquired = Inr tree0, stop_during_poll = False\<rparr>]
       ((init_producer ''/w'' 1 (Some Event_queue))\<lparr>snapshot := Some tree0\<rparr>) []
     = (producer_stop ((init_producer ''/w'' 1 (Some Event_queue))\<lparr>snapshot := Some tree1\<rparr>),
        [(''/w'', FileCreatedEvent ''/w/g''), (''/w'', DirModifiedEvent ''/w/b''),
         (''/w'', DirDeletedEvent ''/w/a'')],
        Returned)"
  by (simp add: poll_def get_directory_snapshot_diff_def emit_events_def put_def
        init_producer_def producer_stop_def listing_sub_def removed_def changed_def
        tree0_def tree1_def)

text \<open>
  C10. A producer constructed without an output queue (\<open>out_event_queue\<close> is \<open>None\<close>, and
  nothing assigns the field later): every poll whose snapshot is \<open>s\<close> stores \<open>s\<close> as the
  previous snapshot, puts nothing on any queue and raises nothing. Over a whole run the
  queue stays as it was, and the only error a run can end with is one that the snapshot
  provider raised.
\<close>

theorem no_queue_drops_events:
  "out_event_queue pr = None \<Longrightarrow>
   poll sub (Inr s) pr q = Inr (pr\<lparr>snapshot := Some s\<rparr>, q) \<and>
   (case producer_run sub cs pr q of
      (pr', q', st) \<Rightarrow>
        q' = q \<and> out_event_queue pr' = None \<and>
        (\<forall>e. st = Raised e \<longrightarrow> Inl e \<in> acquired ` set cs))"
  by (simp add: poll_no_queue producer_run_no_queue)

theorem no_queue_drops_events_witness:
  "out_event_queue ((init_producer ''/w'' 1 None)\<lparr>snapshot := Some tree0\<rparr>) = None \<and>
   poll listing_sub (Inr tree1) ((init_producer ''/w'' 1 None)\<lparr>snapshot := Some tree0\<rparr>) [] =
     Inr ((init_producer ''/w'' 1 None)\<lparr>snapshot := Some tree1\<rparr>, []) \<and>
   fst (snd (producer_run listing_sub
               [\<lparr>stop_during_wait = False, acquired = Inr tree1, stop_during_poll = False\<rparr>,
                \<lparr>stop_during_wait = False, acquired = Inl OSError, stop_during_poll = False\<rparr>]
               ((init_producer ''/w'' 1 None)\<lparr>snapshot := Some tree0\<rparr>) [])) = []"
proof -
  let ?pr = "(init_producer ''/w'' 1 None :: listing producer)\<lparr>snapshot := Some tree0\<rparr>"
  let ?cs = "[\<lparr>stop_during_wait = False, acquired = Inr tree1, stop_during_poll = False\<rparr>,
              \<lparr>stop_during_wait = False, acquired = Inl OSError, stop_during_poll = False\<rparr>]"
  have h: "out_event_queue ?pr = None" by (simp add: init_producer_def)
  from no_queue_drops_events [OF h, of listing_sub tree1 "[]" ?cs] h
  show ?thesis by (auto split: prod.splits)
qed

section \<open>Properties of the dispatch loop\<close>

text \<open>
  C1, as the source has it. Let \<open>run\<close> be blocked in \<open>get\<close> after the execution \<open>pre\<close>, in
  the state \<open>obs'\<close>, with the entry \<open>(p, e)\<close> at the head of the queue and no rule for \<open>p\<close>
  in the rule table. When \<open>get\<close> returns that entry, the lookup of the rule raises
  \<open>KeyError\<close>, nothing catches it, and \<open>run\<close> ends with it: the entry is gone from the
  queue, and the entries behind it are never taken, whatever the execution holds after
  that point.
\<close>

theorem stale_entry_raises_KeyError:
  "observer_run sub obs pre = Run_blocked obs' \<Longrightarrow>
   event_queue obs' = (p, e) # q \<Longrightarrow> rules obs' p = None \<Longrightarrow>
   observer_run sub obs (pre @ Get # acts) = Run_raised KeyError (obs'\<lparr>event_queue := q\<rparr>)"
  unfolding observer_run_def
  by (erule run_from_append_Failed) simp

theorem stale_entry_raises_KeyError_witness:
  "(let pre = [Producer_cycle 0 (Inr tree0), Producer_cycle 0 (Inr tree1),
               Call_remove_rule ''/w''];
        obs' = outcome_state (observer_run listing_sub two_rules pre)
    in observer_run listing_sub two_rules pre = Run_blocked obs' \<and>
       event_queue obs' =
         [(''/w'', FileCreatedEvent ''/w/g''), (''/w'', DirModifiedEvent ''/w/b''),
          (''/w'', DirDeletedEvent ''/w/a'')] \<and>
       rules obs' ''/w'' = None \<and>
       observer_run listing_sub two_rules (pre @ [Get, Get]) =
         Run_raised KeyError
           (obs'\<lparr>event_queue := [(''/w'', DirModifiedEvent ''/w/b''),
                                  (''/w'', DirDeletedEvent ''/w/a'')]\<rparr>))"
proof -
  let ?pre = "[Producer_cycle 0 (Inr tree0), Producer_cycle 0 (Inr tree1),
               Call_remove_rule ''/w'']"
  let ?obs' = "outcome_state (observer_run listing_sub two_rules ?pre)"
  have h1: "observer_run listing_sub two_rules ?pre = Run_blocked ?obs'"
    by (simp add: example_defs)
  have h2: "event_queue ?obs' =
              (''/w'', FileCreatedEvent ''/w/g'')
              # [(''/w'', DirModifiedEvent ''/w/b''), (''/w'', DirDeletedEvent ''/w/a'')]"
    by (simp add: example_defs)
  have h3: "rules ?obs' ''/w'' = None"
    by (simp add: example_defs)
  from stale_entry_raises_KeyError [OF h1 h2 h3, of "[Get]"] h1 h2 h3
  show ?thesis by (simp add: Let_def)
qed

text \<open>
  The sentence of the specification fails on the source. The observer watches \<open>/w\<close> and \<open>/v\<close>; \<open>run\<close> starts the
  producer of \<open>/w\<close>, which polls twice and enqueues three events; the rule for \<open>/w\<close> is
  removed; \<open>get\<close> returns the first event. \<open>run\<close> ends with \<open>KeyError\<close>, and the two events
  behind it stay in the queue although a further \<open>get\<close> was due.
\<close>

theorem stale_entry_not_discarded:
  "(case observer_run listing_sub two_rules
           [Producer_cycle 0 (Inr tree0), Producer_cycle 0 (Inr tree1),
            Call_remove_rule ''/w'', Get, Get] of
      Run_raised e obs' \<Rightarrow>
        e = KeyError \<and>
        event_queue obs' = [(''/w'', DirModifiedEvent ''/w/b''),
                            (''/w'', DirDeletedEvent ''/w/a'')]
    | _ \<Rightarrow> False)"
  by (simp add: example_defs)

text \<open>
  C2, as the source has it. Let \<open>run\<close> be blocked in \<open>get\<close> after the execution \<open>pre\<close>, in
  the state \<open>obs'\<close>, with the entry \<open>(p, e)\<close> at the head of the queue, and let the handler
  of the rule for \<open>p\<close> raise \<open>x\<close> on \<open>e\<close>, where \<open>x\<close> is not \<open>KeyboardInterrupt\<close>. When \<open>get\<close>
  returns that entry, nothing catches \<open>x\<close>: \<open>run\<close> ends with it, and the entries behind
  \<open>(p, e)\<close> are never dispatched, whatever the execution holds after that point. The only
  exception that the \<open>try\<close> block catches is \<open>KeyboardInterrupt\<close>.
\<close>

theorem handler_failure_ends_run:
  "observer_run sub obs pre = Run_blocked obs' \<Longrightarrow>
   event_queue obs' = (p, e) # q \<Longrightarrow> rules obs' p = Some r \<Longrightarrow>
   event_handler r e = Some x \<Longrightarrow> x \<noteq> KeyboardInterrupt \<Longrightarrow>
   observer_run sub obs (pre @ Get # acts) = Run_raised x (obs'\<lparr>event_queue := q\<rparr>)"
  unfolding observer_run_def
  by (erule run_from_append_Failed) simp

theorem handler_failure_ends_run_witness:
  "(let pre = [Producer_cycle 0 (Inr tree0), Producer_cycle 0 (Inr tree1)];
        obs' = outcome_state (observer_run listing_sub (one_rule handler_failing) pre)
    in observer_run listing_sub (one_rule handler_failing) pre = Run_blocked obs' \<and>
       event_queue obs' =
         [(''/w'', FileCreatedEvent ''/w/g''), (''/w'', DirModifiedEvent ''/w/b''),
          (''/w'', DirDeletedEvent ''/w/a'')] \<and>
       rules obs' ''/w'' = Some \<lparr>event_handler = handler_failing, event_producer_thread = 0\<rparr> \<and>
       handler_failing (FileCreatedEvent ''/w/g'') = Some HandlerError \<and>
       HandlerError \<noteq> KeyboardInterrupt \<and>
       observer_run listing_sub (one_rule handler_failing) (pre @ [Get, Get]) =
         Run_raised HandlerError
           (obs'\<lparr>event_queue := [(''/w'', DirModifiedEvent ''/w/b''),
                                  (''/w'', DirDeletedEvent ''/w/a'')]\<rparr>))"
proof -
  let ?pre = "[Producer_cycle 0 (Inr tree0), Producer_cycle 0 (Inr tree1)]"
  let ?obs' = "outcome_state (observer_run listing_sub (one_rule handler_failing) ?pre)"
  let ?r = "\<lparr>event_handler = handler_failing, event_producer_thread = 0\<rparr>"
  have h1: "observer_run listing_sub (one_rule handler_failing) ?pre = Run_blocked ?obs'"
    by (simp add: example_defs)
  have h2: "event_queue ?obs' =
              (''/w'', FileCreatedEvent ''/w/g'')
              # [(''/w'', DirModifiedEvent ''/w/b''), (''/w'', DirDeletedEvent ''/w/a'')]"
    by (simp add: example_defs)
  have h3: "rules ?obs' ''/w'' = Some ?r"
    by (simp add: example_defs)
  have h4: "event_handler ?r (FileCreatedEvent ''/w/g'') = Some HandlerError"
    by (simp add: handler_failing_def)
  have h5: "HandlerError \<noteq> KeyboardInterrupt" by simp
  from handler_failure_ends_run [OF h1 h2 h3 h4 h5, of "[Get]"] h1 h2 h3 h4
  show ?thesis by (simp add: Let_def)
qed

text \<open>
  The sentence of the specification fails on the source. The observer watches \<open>/w\<close> with a handler that raises on
  every event; the producer polls twice and enqueues three events; \<open>get\<close> returns the
  first. \<open>run\<close> ends with the handler's exception, and the two events behind it stay in the
  queue although a further \<open>get\<close> was due.
\<close>

theorem handler_failure_not_contained:
  "(case observer_run listing_sub (one_rule handler_failing)
           [Producer_cycle 0 (Inr tree0), Producer_cycle 0 (Inr tree1), Get, Get] of
      Run_raised e obs' \<Rightarrow>
        e = HandlerError \<and>
        event_queue obs' = [(''/w'', DirModifiedEvent ''/w/b''),
                            (''/w'', DirDeletedEvent ''/w/a'')]
    | _ \<Rightarrow> False)"
  by (simp add: example_defs)

section \<open>Properties of the observer's life cycle\<close>

text \<open>
  C3, evaluated on the source. The \<open>try\<close> block with the dispatch loop stands inside the
  \<open>for\<close> loop over the producers, so \<open>run\<close> starts one producer and enters the dispatch
  loop; the next producer is started only after a \<open>KeyboardInterrupt\<close>. With the two rules
  \<open>/w\<close> and \<open>/v\<close> and an execution without interrupt, the producer of \<open>/w\<close> is started, its
  three events are dispatched, and the producer of \<open>/v\<close> is still unstarted (so its cycles
  do nothing) while \<open>run\<close> is blocked in \<open>get\<close>. With no rule at all the \<open>for\<close> loop has
  no pass: \<open>run\<close> returns at once and never calls \<open>get\<close>.
\<close>

theorem run_starts_first_producer_only:
  "(case observer_run listing_sub two_rules
           [Producer_cycle 0 (Inr tree0), Producer_cycle 1 (Inr tree0),
            Producer_cycle 0 (Inr tree1), Producer_cycle 1 (Inr tree1), Get, Get, Get, Get] of
      Run_blocked obs' \<Rightarrow>
        map_option tstate (heap obs' 0) = Some Alive \<and>
        map_option tstate (heap obs' 1) = Some Initial \<and>
        map_option snapshot (heap obs' 1) = Some None \<and>
        event_queue obs' = []
    | _ \<Rightarrow> False) \<and>
   observer_run listing_sub (init_observer 1) [Get, Get] = Run_returned (init_observer 1)"
  by (simp add: example_defs)

text \<open>
  C4, as the source has it. \<open>add_rule\<close> for a path that has no rule constructs the
  producer, registers it in the rule table and inserts it into the producer set, and
  does not start it; it does so whether \<open>run\<close> is executing or not (the observer keeps no
  record of that). And when the call comes while \<open>run\<close> is blocked in \<open>get\<close>, the new
  producer stays unstarted for as long as no \<open>KeyboardInterrupt\<close> ends the dispatch loop:
  in every continuation without one, \<open>run\<close> is blocked in \<open>get\<close> or has ended with an
  exception, and the producer is unstarted. (After a \<open>KeyboardInterrupt\<close> the \<open>for\<close> loop
  asks the iterator of the changed set for its next member; what happens then is not
  part of this statement.)
\<close>

theorem add_rule_does_not_start_producer:
  "(rules obs p = None \<longrightarrow>
      rules (add_rule p h obs) p
        = Some \<lparr>event_handler = h, event_producer_thread = next_tid obs\<rparr> \<and>
      event_producer_threads (add_rule p h obs) = event_producer_threads obs @ [next_tid obs] \<and>
      heap (add_rule p h obs) (next_tid obs)
        = Some (init_producer p (obs_interval obs) (Some Event_queue)) \<and>
      unstarted (add_rule p h obs) (next_tid obs)) \<and>
   (observer_run sub obs0 pre = Run_blocked obs \<longrightarrow> rules obs p = None \<longrightarrow>
    quiet_observer obs \<longrightarrow> quiet_handler h \<longrightarrow> list_all quiet_action acts \<longrightarrow>
      (case observer_run sub obs0 (pre @ Call_add_rule p h # acts) of
         Run_blocked obs' \<Rightarrow> unstarted obs' (next_tid obs)
       | Run_raised e obs' \<Rightarrow> unstarted obs' (next_tid obs)
       | _ \<Rightarrow> False))"
proof (intro conjI impI)
  assume "rules obs p = None"
  then show "rules (add_rule p h obs) p
               = Some \<lparr>event_handler = h, event_producer_thread = next_tid obs\<rparr>"
    and "event_producer_threads (add_rule p h obs)
               = event_producer_threads obs @ [next_tid obs]"
    and "heap (add_rule p h obs) (next_tid obs)
               = Some (init_producer p (obs_interval obs) (Some Event_queue))"
    and "unstarted (add_rule p h obs) (next_tid obs)"
    by (simp_all add: add_rule_def Let_def unstarted_def init_producer_def)
next
  let ?n0 = "length (event_producer_threads obs0)"
  let ?v0 = "next_tid obs0"
  let ?ts = "event_producer_threads obs0"
  let ?obs2 = "add_rule p h obs"
  let ?ex = "dispatch_loop sub ?obs2 acts"
  assume "observer_run sub obs0 pre = Run_blocked obs" and none: "rules obs p = None"
    and qo: "quiet_observer obs" and qh: "quiet_handler h"
    and qa: "list_all quiet_action acts"
  then have blocked: "run_from sub ?n0 ?v0 ?ts obs0 pre = Run_blocked obs"
    by (simp add: observer_run_def)
  from run_from_blocked_continues [OF blocked] obtain t ts' where
    "run_from sub ?n0 ?v0 ?ts obs0 (pre @ Call_add_rule p h # acts) =
       (case dispatch_loop sub obs (Call_add_rule p h # acts) of
          Interrupted obs2 rest \<Rightarrow> run_from sub ?n0 ?v0 ts' (on_thread t producer_stop obs2) rest
        | Failed e obs2 \<Rightarrow> Run_raised e obs2
        | Blocked obs2 \<Rightarrow> Run_blocked obs2)"
    by blast
  then have run: "observer_run sub obs0 (pre @ Call_add_rule p h # acts) =
       (case ?ex of
          Interrupted obs2 rest \<Rightarrow> run_from sub ?n0 ?v0 ts' (on_thread t producer_stop obs2) rest
        | Failed e obs2 \<Rightarrow> Run_raised e obs2
        | Blocked obs2 \<Rightarrow> Run_blocked obs2)"
    by (simp add: observer_run_def)
  have "unstarted ?obs2 (next_tid obs)"
    using none by (simp add: add_rule_def Let_def unstarted_def init_producer_def)
  then have u: "unstarted (loop_exit_state ?ex) (next_tid obs)"
    by (rule dispatch_loop_unstarted)
  have "quiet_observer (env_step sub (Call_add_rule p h) obs)"
    using qo qh by (intro quiet_env_step) simp_all
  then have q2: "quiet_observer ?obs2" by simp
  show "case observer_run sub obs0 (pre @ Call_add_rule p h # acts) of
          Run_blocked obs' \<Rightarrow> unstarted obs' (next_tid obs)
        | Run_raised e obs' \<Rightarrow> unstarted obs' (next_tid obs)
        | _ \<Rightarrow> False"
  proof (cases ?ex)
    case (Interrupted o2 rest)
    with dispatch_loop_quiet [OF q2 qa] show ?thesis by simp
  next
    case (Failed e o2)
    with u show ?thesis by (simp add: run)
  next
    case (Blocked o2)
    with u show ?thesis by (simp add: run)
  qed
qed

theorem add_rule_does_not_start_producer_witness:
  "(let obs = outcome_state (observer_run listing_sub (one_rule handler_ok)
                               [Producer_cycle 0 (Inr tree0)])
    in rules obs ''/v'' = None \<and>
       observer_run listing_sub (one_rule handler_ok) [Producer_cycle 0 (Inr tree0)]
         = Run_blocked obs \<and>
       quiet_observer obs \<and> quiet_handler handler_ok \<and>
       list_all quiet_action
         [Producer_cycle 1 (Inr tree0), Producer_cycle 0 (Inr tree1), Get :: listing action] \<and>
       next_tid obs = 1 \<and>
       event_producer_threads (add_rule ''/v'' handler_ok obs) = [0, 1] \<and>
       unstarted (add_rule ''/v'' handler_ok obs) 1 \<and>
       (case observer_run listing_sub (one_rule handler_ok)
               ([Producer_cycle 0 (Inr tree0)]
                @ Call_add_rule ''/v'' handler_ok
                # [Producer_cycle 1 (Inr tree0), Producer_cycle 0 (Inr tree1), Get]) of
          Run_blocked obs' \<Rightarrow> unstarted obs' 1
        | Run_raised e obs' \<Rightarrow> unstarted obs' 1
        | _ \<Rightarrow> False))"
proof -
  let ?pre = "[Producer_cycle 0 (Inr tree0)] :: listing action list"
  let ?acts = "[Producer_cycle 1 (Inr tree0), Producer_cycle 0 (Inr tree1), Get]
                 :: listing action list"
  let ?obs = "outcome_state (observer_run listing_sub (one_rule handler_ok) ?pre)"
  have h1: "rules ?obs ''/v'' = None" by (simp add: example_defs)
  have h2: "observer_run listing_sub (one_rule handler_ok) ?pre = Run_blocked ?obs"
    by (simp add: example_defs)
  have h3: "next_tid ?obs = 1" by (simp add: example_defs)
  have h4: "quiet_observer ?obs"
    by (simp add: quiet_observer_def quiet_handler_def example_defs)
  have h5: "quiet_handler handler_ok"
    by (simp add: quiet_handler_def handler_ok_def)
  have h6: "list_all quiet_action ?acts" by simp
  have h7: "event_producer_threads ?obs = [0]" by (simp add: example_defs)
  note inst = add_rule_does_not_start_producer
         [of ?obs "''/v''" handler_ok listing_sub "one_rule handler_ok" ?pre ?acts]
  from inst h1
  have a: "event_producer_threads (add_rule ''/v'' handler_ok ?obs)
             = event_producer_threads ?obs @ [next_tid ?obs]"
    and b: "unstarted (add_rule ''/v'' handler_ok ?obs) (next_tid ?obs)"
    by blast+
  from inst h1 h2 h4 h5 h6
  have c: "case observer_run listing_sub (one_rule handler_ok)
                  (?pre @ Call_add_rule ''/v'' handler_ok # ?acts) of
             Run_blocked obs' \<Rightarrow> unstarted obs' (next_tid ?obs)
           | Run_raised e obs' \<Rightarrow> unstarted obs' (next_tid ?obs)
           | _ \<Rightarrow> False"
    by blast
  from a h3 h7
  have a': "event_producer_threads (add_rule ''/v'' handler_ok ?obs) = [0, 1]" by simp
  from b h3 have b': "unstarted (add_rule ''/v'' handler_ok ?obs) 1" by simp
  from c
  have c': "case observer_run listing_sub (one_rule handler_ok)
                   (?pre @ Call_add_rule ''/v'' handler_ok # ?acts) of
              Run_blocked obs' \<Rightarrow> unstarted obs' 1
            | Run_raised e obs' \<Rightarrow> unstarted obs' 1
            | _ \<Rightarrow> False"
    unfolding h3 .
  from h1 h2 h4 h5 h6 h3 a' b' c' show ?thesis
    unfolding Let_def by (intro conjI)
qed

text \<open>
  The sentence of the specification fails on the source. The observer watches \<open>/w\<close> and \<open>run\<close> is executing;
  \<open>add_rule\<close> is called for \<open>/v\<close>. The rule is registered with producer \<open>1\<close>, and that
  producer is not started: its cycles do nothing, it holds no snapshot, no event of \<open>/v\<close>
  reaches the queue.
\<close>

theorem added_producer_not_started:
  "(case observer_run listing_sub (one_rule handler_ok)
           [Producer_cycle 0 (Inr tree0), Call_add_rule ''/v'' handler_ok,
            Producer_cycle 1 (Inr tree0), Producer_cycle 1 (Inr tree1), Get] of
      Run_blocked obs' \<Rightarrow>
        map_option event_producer_thread (rules obs' ''/v'') = Some 1 \<and>
        map_option tstate (heap obs' 1) = Some Initial \<and>
        map_option snapshot (heap obs' 1) = Some None \<and>
        event_queue obs' = []
    | _ \<Rightarrow> False)"
  by (simp add: example_defs)

text \<open>
  C6, as the source has it. The observer's \<open>stop\<close> sets the stop flag of every producer in
  the producer set and changes nothing else: not the rule table, not the queue, not the
  set. It does not make \<open>run\<close> return: with at least one producer in the set, an execution
  in which no \<open>KeyboardInterrupt\<close> occurs (from outside or from a handler) never ends with
  \<open>run\<close> returning, whether \<open>stop\<close> is called in it or not. (How long anything takes is not
  part of the model.)
\<close>

theorem stop_does_not_end_run:
  "heap (observer_stop obs) t =
     (if t \<in> set (event_producer_threads obs) then map_option producer_stop (heap obs t)
      else heap obs t) \<and>
   rules (observer_stop obs) = rules obs \<and>
   event_queue (observer_stop obs) = event_queue obs \<and>
   event_producer_threads (observer_stop obs) = event_producer_threads obs \<and>
   (event_producer_threads obs \<noteq> [] \<longrightarrow> quiet_observer obs \<longrightarrow> list_all quiet_action acts \<longrightarrow>
      observer_run sub obs acts \<noteq> Run_returned obs')"
  by (simp add: heap_observer_stop observer_run_def run_from_quiet)

theorem stop_does_not_end_run_witness:
  "event_producer_threads (one_rule handler_ok) \<noteq> [] \<and>
   quiet_observer (one_rule handler_ok) \<and>
   list_all quiet_action
     [Producer_cycle 0 (Inr tree0), Call_stop, Producer_cycle 0 (Inr tree1), Get
        :: listing action] \<and>
   map_option stopped (heap (observer_stop (one_rule handler_ok)) 0) = Some True \<and>
   observer_run listing_sub (one_rule handler_ok)
       [Producer_cycle 0 (Inr tree0), Call_stop, Producer_cycle 0 (Inr tree1), Get]
     \<noteq> Run_returned (observer_stop (one_rule handler_ok))"
proof -
  let ?acts = "[Producer_cycle 0 (Inr tree0), Call_stop, Producer_cycle 0 (Inr tree1), Get]
                 :: listing action list"
  have h1: "event_producer_threads (one_rule handler_ok) \<noteq> []"
    by (simp add: one_rule_def add_rule_def init_observer_def)
  have h2: "quiet_observer (one_rule handler_ok)"
    by (simp add: quiet_observer_def quiet_handler_def one_rule_def add_rule_def
          init_observer_def handler_ok_def)
  have h3: "list_all quiet_action ?acts" by simp
  have h4: "0 \<in> set (event_producer_threads (one_rule handler_ok))"
    by (simp add: one_rule_def add_rule_def init_observer_def)
  have h5: "heap (one_rule handler_ok) 0 = Some (init_producer ''/w'' 1 (Some Event_queue))"
    by (simp add: one_rule_def add_rule_def init_observer_def)
  from stop_does_not_end_run
         [of "one_rule handler_ok" 0 ?acts listing_sub "observer_stop (one_rule handler_ok)"]
       h1 h2 h3 h4 h5
  show ?thesis by (simp add: producer_stop_def)
qed

text \<open>
  The sentence of the specification fails on the source. The observer watches \<open>/w\<close>; \<open>run\<close> starts the producer, which
  takes its baseline; \<open>stop\<close> is called; the producer sees its flag at the next loop test
  and finishes. \<open>run\<close> has not returned: it is blocked in \<open>get\<close> on the empty queue, with
  no producer left to fill it.
\<close>

theorem run_blocked_after_stop:
  "(case observer_run listing_sub (one_rule handler_ok)
           [Producer_cycle 0 (Inr tree0), Call_stop, Producer_cycle 0 (Inr tree1), Get, Get] of
      Run_blocked obs' \<Rightarrow>
        map_option stopped (heap obs' 0) = Some True \<and>
        map_option tstate (heap obs' 0) = Some Finished \<and>
        event_queue obs' = []
    | _ \<Rightarrow> False)"
  by (simp add: example_defs)

text \<open>
  C9, as the source has it. A watch is identified by the path string passed to
  \<open>add_rule\<close>; the string is not made canonical. The new observer is consistent (every
  member of the producer set is the producer of the rule for its own path string, and
  every producer that is alive with its stop flag not set is in the set), and \<open>add_rule\<close>,
  \<open>remove_rule\<close>, \<open>stop\<close> and every execution of \<open>run\<close> keep it so, whatever the set iterator
  yields after the set was changed. A consistent observer has, for any path string, at
  most one registered producer and at most one producer that is alive with its stop flag
  not set. Two calls of \<open>add_rule\<close> for paths without a rule add one producer when the two
  strings are equal and two producers when they differ, whatever the strings
  canonicalise to.
\<close>

theorem one_producer_per_path_string:
  "watches_consistent (init_observer i) \<and>
   (watches_consistent obs \<longrightarrow>
      watches_consistent (add_rule p h obs) \<and>
      watches_consistent (fst (remove_rule p obs)) \<and>
      watches_consistent (observer_stop obs) \<and>
      watches_consistent (outcome_state (observer_run_iter sub cs obs acts)) \<and>
      (\<forall>ob. observer_run_iter sub cs obs acts \<noteq> Unmodelled ob) \<and>
      length (producers_of obs p) \<le> 1 \<and>
      length (live_producers_of obs p) \<le> 1) \<and>
   (rules obs p1 = None \<longrightarrow> rules obs p2 = None \<longrightarrow>
      length (event_producer_threads (add_rule p2 h2 (add_rule p1 h1 obs)))
        = length (event_producer_threads obs) + (if p1 = p2 then 1 else 2))"
proof (intro conjI impI)
  show "watches_consistent (init_observer i)"
    by (simp add: watches_consistent_def registered_init live_in_set_init)
next
  assume "watches_consistent obs"
  then have r: "registered obs" and l: "live_in_set obs"
    by (simp_all add: watches_consistent_def)
  show "watches_consistent (add_rule p h obs)"
    using r l by (simp add: watches_consistent_def registered_add_rule live_in_set_add_rule)
  show "watches_consistent (fst (remove_rule p obs))"
    using r l
    by (simp add: watches_consistent_def registered_remove_rule live_in_set_remove_rule)
  show "watches_consistent (observer_stop obs)"
    using r l
    by (simp add: watches_consistent_def registered_observer_stop live_in_set_observer_stop)
  note run = consistent_observer_run_iter [OF r l, of sub cs acts]
  from run show "watches_consistent (outcome_state (observer_run_iter sub cs obs acts))"
    by (simp add: watches_consistent_def)
  from run show "\<forall>ob. observer_run_iter sub cs obs acts \<noteq> Unmodelled ob"
    by blast
  show "length (producers_of obs p) \<le> 1" using r by (rule registered_at_most_one)
  show "length (live_producers_of obs p) \<le> 1" using r l by (rule live_at_most_one)
next
  assume "rules obs p1 = None" and "rules obs p2 = None"
  then show "length (event_producer_threads (add_rule p2 h2 (add_rule p1 h1 obs)))
               = length (event_producer_threads obs) + (if p1 = p2 then 1 else 2)"
    by (simp add: add_rule_def Let_def)
qed

text \<open>
  The witness takes the run in which the set is changed under the iterator: \<open>run\<close> has
  started the producer \<open>0\<close> of \<open>/w\<close>; the rule for \<open>/w\<close> is removed and added again (producer
  \<open>2\<close>), so the set has its old size; a \<open>KeyboardInterrupt\<close> lets the \<open>for\<close> loop go on, and
  the iterator yields the new producer, which is started. Producer \<open>0\<close> is stopped and its
  thread still alive; the one producer of \<open>/w\<close> that is alive and not stopped is \<open>2\<close>.
\<close>

theorem one_producer_per_path_string_witness:
  "(let acts = [Producer_cycle 0 (Inr tree0), Call_remove_rule ''/w'',
                Call_add_rule ''/w'' handler_ok, Interrupt, Producer_cycle 2 (Inr tree0)];
        out = observer_run_iter listing_sub [Some 2] two_rules acts
    in watches_consistent two_rules \<and>
       rules two_rules ''/data'' = None \<and> rules two_rules ''/data/'' = None \<and>
       watches_consistent (outcome_state out) \<and>
       (case out of Run_blocked obs' \<Rightarrow> True | _ \<Rightarrow> False) \<and>
       map_option tstate (heap (outcome_state out) 0) = Some Alive \<and>
       map_option tstate (heap (outcome_state out) 2) = Some Alive \<and>
       live_producers_of (outcome_state out) ''/w'' = [2] \<and>
       length (producers_of (outcome_state out) ''/w'') \<le> 1 \<and>
       length (event_producer_threads
                 (add_rule ''/data/'' handler_ok (add_rule ''/data'' handler_ok two_rules)))
         = 4 \<and>
       length (event_producer_threads
                 (add_rule ''/data'' handler_ok (add_rule ''/data'' handler_ok two_rules)))
         = 3)"
proof -
  let ?acts = "[Producer_cycle 0 (Inr tree0), Call_remove_rule ''/w'',
                Call_add_rule ''/w'' handler_ok, Interrupt, Producer_cycle 2 (Inr tree0)]
                 :: listing action list"
  let ?out = "observer_run_iter listing_sub [Some 2] two_rules ?acts"
  have h1: "watches_consistent two_rules"
    by (simp add: watches_consistent_def registered_def rule_owned_def live_in_set_def
          live_def two_rules_def add_rule_def init_observer_def init_producer_def)
  have h2: "rules two_rules ''/data'' = None"
    by (simp add: two_rules_def add_rule_def init_observer_def)
  have h3: "rules two_rules ''/data/'' = None"
    by (simp add: two_rules_def add_rule_def init_observer_def)
  have n: "length (event_producer_threads two_rules) = 2"
    by (simp add: two_rules_def add_rule_def init_observer_def)
  have ne: "''/data'' \<noteq> ''/data/''" by simp
  have ev: "(case ?out of Run_blocked obs' \<Rightarrow> True | _ \<Rightarrow> False)"
    "map_option tstate (heap (outcome_state ?out) 0) = Some Alive"
    "map_option tstate (heap (outcome_state ?out) 2) = Some Alive"
    "live_producers_of (outcome_state ?out) ''/w'' = [2]"
    by (simp_all add: live_producers_of_def live_def run_iter.simps example_defs)
  from one_producer_per_path_string
         [of 1 two_rules "''/w''" handler_ok listing_sub "[Some 2]" ?acts
             "''/data''" "''/data/''" handler_ok handler_ok]
       h1 h2 h3
  have a: "watches_consistent (outcome_state ?out)"
    and b: "length (event_producer_threads
              (add_rule ''/data/'' handler_ok (add_rule ''/data'' handler_ok two_rules)))
            = length (event_producer_threads two_rules)
              + (if ''/data'' = ''/data/'' then 1 else 2)"
    by blast+
  from one_producer_per_path_string
         [of 1 "outcome_state ?out" "''/w''" handler_ok listing_sub "[]" "[]"
             "''/data''" "''/data''" handler_ok handler_ok]
       a
  have c: "length (producers_of (outcome_state ?out) ''/w'') \<le> 1"
    by blast
  from one_producer_per_path_string
         [of 1 two_rules "''/data''" handler_ok listing_sub "[]" "[]" "''/data''" "''/data''"
             handler_ok handler_ok]
       h1 h2
  have d: "length (event_producer_threads
              (add_rule ''/data'' handler_ok (add_rule ''/data'' handler_ok two_rules)))
            = length (event_producer_threads two_rules)
              + (if ''/data'' = ''/data'' then 1 else 2)"
    by blast
  from b ne n
  have b': "length (event_producer_threads
              (add_rule ''/data/'' handler_ok (add_rule ''/data'' handler_ok two_rules))) = 4"
    by simp
  from d n
  have d': "length (event_producer_threads
              (add_rule ''/data'' handler_ok (add_rule ''/data'' handler_ok two_rules))) = 3"
    by simp
  from h1 h2 h3 a ev c b' d' show ?thesis
    unfolding Let_def by (intro conjI)
qed

text \<open>
  The sentence of the specification fails on the source, in two ways. \<open>/data\<close> and
  \<open>/data/\<close> name the same directory and have the same canonical path; \<open>add_rule\<close> for the
  one and then for the other registers two rules with two producers, one per string. And
  a producer whose thread is alive is not the only one for its path, even for one
  string: \<open>run\<close> is left by a \<open>KeyboardInterrupt\<close>, which stops producer \<open>0\<close> of \<open>/w\<close>; before
  its thread has seen the flag the rule is removed and added again and \<open>run\<close> is called
  again, which starts producer \<open>1\<close> of \<open>/w\<close>: both threads are alive.
\<close>

theorem same_directory_two_producers:
  "canonical_path ''/data'' = canonical_path ''/data/'' \<and>
   (let obs = add_rule ''/data/'' handler_ok
                (add_rule ''/data'' handler_ok (init_observer 1 :: listing observer))
    in event_producer_threads obs = [0, 1] \<and>
       map_option event_producer_thread (rules obs ''/data'') = Some 0 \<and>
       map_option event_producer_thread (rules obs ''/data/'') = Some 1 \<and>
       map_option path (heap obs 0) = Some ''/data'' \<and>
       map_option path (heap obs 1) = Some ''/data/'') \<and>
   (let first_run = observer_run listing_sub (one_rule handler_ok)
                      [Producer_cycle 0 (Inr tree0), Interrupt];
        obs = add_rule ''/w'' handler_ok (fst (remove_rule ''/w'' (outcome_state first_run)));
        second_run = observer_run listing_sub obs []
    in (case first_run of Run_returned obs' \<Rightarrow> True | _ \<Rightarrow> False) \<and>
       (case second_run of Run_blocked obs' \<Rightarrow> True | _ \<Rightarrow> False) \<and>
       map_option path (heap (outcome_state second_run) 0) = Some ''/w'' \<and>
       map_option tstate (heap (outcome_state second_run) 0) = Some Alive \<and>
       map_option path (heap (outcome_state second_run) 1) = Some ''/w'' \<and>
       map_option tstate (heap (outcome_state second_run) 1) = Some Alive)"
  by (simp add: canonical_path_def normpath_def normpath_step_def join_slash_def example_defs)

end
